theory Spec2Isabelle
  imports Main "HOL-Library.AList" "HOL-Library.Sublist"
begin

section \<open>Strings: the parts of Python's \<open>str\<close> and \<open>os.path\<close> that simplegit uses\<close>

text \<open>
  A Python string is a \<^typ>\<open>string\<close>; a character is a code point below 256.
  The functions below follow \<open>posixpath.py\<close> and the string methods of CPython 3.
\<close>

abbreviation NL :: char where "NL \<equiv> CHR 0x0A"
abbreviation CR :: char where "CR \<equiv> CHR 0x0D"
abbreviation SEP :: char where "SEP \<equiv> CHR ''/''"

text \<open>\<open>s.split(d)\<close> for a one-character separator: never empty, \<open>''''.split(d) = ['''']\<close>.\<close>

fun split_on :: "char \<Rightarrow> string \<Rightarrow> string list" where
  "split_on d [] = [[]]"
| "split_on d (c # cs) =
     (if c = d then [] # split_on d cs
      else (case split_on d cs of [] \<Rightarrow> [[c]] | l # ls \<Rightarrow> (c # l) # ls))"

text \<open>\<open>'/'.join(comps)\<close>.\<close>

fun join_sep :: "string list \<Rightarrow> string" where
  "join_sep [] = []"
| "join_sep [c] = c"
| "join_sep (c # d # cs) = c @ SEP # join_sep (d # cs)"

text \<open>\<open>os.path.join(a, *p)\<close>: one step of its loop, then the loop.\<close>

definition join2 :: "string \<Rightarrow> string \<Rightarrow> string" where
  "join2 path b =
     (if b \<noteq> [] \<and> hd b = SEP then b
      else if path = [] \<or> last path = SEP then path @ b
      else path @ SEP # b)"

definition path_join :: "string \<Rightarrow> string list \<Rightarrow> string" where
  "path_join a p = foldl join2 a p"

text \<open>
  The loop of \<open>os.path.normpath\<close> over the components: \<open>new\<close> is \<open>new_comps\<close>,
  \<open>initial\<close> says whether the path starts with a slash.
\<close>

fun norm_comps :: "bool \<Rightarrow> string list \<Rightarrow> string list \<Rightarrow> string list" where
  "norm_comps initial new [] = new"
| "norm_comps initial new (c # comps) =
     (if c = [] \<or> c = ''.'' then norm_comps initial new comps
      else if c \<noteq> ''..'' \<or> (\<not> initial \<and> new = []) \<or> (new \<noteq> [] \<and> last new = ''..'')
        then norm_comps initial (new @ [c]) comps
      else if new \<noteq> [] then norm_comps initial (butlast new) comps
      else norm_comps initial new comps)"

definition initial_slashes :: "string \<Rightarrow> nat" where
  "initial_slashes path =
     (if take 1 path \<noteq> [SEP] then 0
      else if take 2 path = [SEP, SEP] \<and> take 3 path \<noteq> [SEP, SEP, SEP] then 2
      else 1)"

definition normpath :: "string \<Rightarrow> string" where
  "normpath path =
     (if path = [] then ''.''
      else
        (let n = initial_slashes path;
             comps = norm_comps (n \<noteq> 0) [] (split_on SEP path);
             res = replicate n SEP @ join_sep comps
         in if res = [] then ''.'' else res))"

text \<open>\<open>os.path.dirname\<close> and \<open>os.path.basename\<close>: split at the last slash.\<close>

definition dirname :: "string \<Rightarrow> string" where
  "dirname p =
     (let head = rev (dropWhile (\<lambda>c. c \<noteq> SEP) (rev p))
      in if head \<noteq> [] \<and> head \<noteq> replicate (length head) SEP
         then rev (dropWhile (\<lambda>c. c = SEP) (rev head)) else head)"

definition basename :: "string \<Rightarrow> string" where
  "basename p = rev (takeWhile (\<lambda>c. c \<noteq> SEP) (rev p))"

text \<open>
  \<open>os.path.relpath(path, start)\<close>. Both arguments are absolute wherever simplegit
  calls it, so \<open>abspath\<close> is \<open>normpath\<close> (the working directory plays no role; it is
  taken to be the root).
\<close>

fun common_prefix_len :: "string list \<Rightarrow> string list \<Rightarrow> nat" where
  "common_prefix_len (x # xs) (y # ys) = (if x = y then Suc (common_prefix_len xs ys) else 0)"
| "common_prefix_len _ _ = 0"

definition abspath :: "string \<Rightarrow> string" where
  "abspath p = normpath (join2 [SEP] p)"

definition relpath :: "string \<Rightarrow> string \<Rightarrow> string" where
  "relpath p start =
     (let start_list = filter (\<lambda>x. x \<noteq> []) (split_on SEP (abspath start));
          path_list = filter (\<lambda>x. x \<noteq> []) (split_on SEP (abspath p));
          i = common_prefix_len start_list path_list;
          rel_list = replicate (length start_list - i) ''..'' @ drop i path_list
      in if rel_list = [] then ''.'' else path_join (hd rel_list) (tl rel_list))"

text \<open>
  \<open>str.splitlines()\<close>: the line boundaries below 256 are LF, VT, FF, CR, FS, GS, RS and
  NEL, and CR LF counts once. Reading a file in text mode turns CR and CR LF into LF
  first, which gives the same lines.
\<close>

definition line_boundary :: "char \<Rightarrow> bool" where
  "line_boundary c \<longleftrightarrow>
     c \<in> set [CHR 0x0A, CHR 0x0B, CHR 0x0C, CHR 0x0D, CHR 0x1C, CHR 0x1D, CHR 0x1E, CHR 0x85]"

fun splitlines :: "string \<Rightarrow> string list" where
  "splitlines [] = []"
| "splitlines (c # cs) =
     (if line_boundary c then
        (case cs of
           d # ds \<Rightarrow> if c = CR \<and> d = NL then [] # splitlines ds else [] # splitlines cs
         | [] \<Rightarrow> [[]])
      else (case splitlines cs of [] \<Rightarrow> [[c]] | l # ls \<Rightarrow> (c # l) # ls))"

text \<open>\<open>f.readline()\<close> on a file opened in text mode, and \<open>str.strip()\<close>.\<close>

definition readline :: "string \<Rightarrow> string" where
  "readline s =
     (let l = takeWhile (\<lambda>c. c \<noteq> NL \<and> c \<noteq> CR) s
      in if length l < length s then l @ [NL] else l)"

definition isspace :: "char \<Rightarrow> bool" where
  "isspace c \<longleftrightarrow>
     c \<in> set [CHR 0x09, CHR 0x0A, CHR 0x0B, CHR 0x0C, CHR 0x0D, CHR 0x1C, CHR 0x1D,
              CHR 0x1E, CHR 0x1F, CHR 0x20, CHR 0x85, CHR 0xA0]"

definition strip :: "string \<Rightarrow> string" where
  "strip s = rev (dropWhile isspace (rev (dropWhile isspace s)))"

text \<open>
  What a program gets when it reads the bytes \<open>s\<close> from a file opened in text mode
  (\<open>newline=None\<close>): CR LF and a lone CR arrive as LF. Writing in text mode leaves LF
  as it is, \<open>os.linesep\<close> being LF.
\<close>

fun universal_newlines :: "string \<Rightarrow> string" where
  "universal_newlines [] = []"
| "universal_newlines [c] = (if c = CR then [NL] else [c])"
| "universal_newlines (c # d # cs) =
     (if c = CR then (if d = NL then NL # universal_newlines cs else NL # universal_newlines (d # cs))
      else c # universal_newlines (d # cs))"

section \<open>The file system and the process\<close>

text \<open>
  The store maps the components of an absolute path to what is there: a regular file
  with its bytes, or a directory. The root always exists. Symbolic links, permissions
  and special files are not modelled.
\<close>

datatype entry = File string | Dir

type_synonym path = "string list"

type_synonym fs = "(path \<times> entry) list"

text \<open>
  How the kernel reads a path string. simplegit passes every path through
  \<open>normpath\<close> first, and the repository path is absolute, so no \<open>..\<close> is left.
\<close>

definition resolve :: "string \<Rightarrow> path" where
  "resolve s = filter (\<lambda>c. c \<noteq> [] \<and> c \<noteq> ''.'') (split_on SEP s)"

definition lookup :: "fs \<Rightarrow> path \<Rightarrow> entry option" where
  "lookup t p = (if p = [] then Some Dir else map_of t p)"

definition valid_name :: "string \<Rightarrow> bool" where
  "valid_name n \<longleftrightarrow> n \<noteq> [] \<and> n \<noteq> ''.'' \<and> n \<noteq> ''..'' \<and> SEP \<notin> set n"

text \<open>The names in a directory, in the order of the store.\<close>

definition children :: "fs \<Rightarrow> path \<Rightarrow> string list" where
  "children t d =
     remdups (map (\<lambda>(p, e). last p) (filter (\<lambda>(p, e). p \<noteq> [] \<and> butlast p = d \<and> valid_name (last p)) t))"

text \<open>
  The world a command runs in: the store and what has been printed. A command is a
  function from the world to its result (\<open>Inl\<close> an exception) and the world it leaves.
  An exception keeps the changes made before it was raised.
\<close>

record world =
  disk :: fs
  stdout :: "string list"

datatype error = OSError | AssertionError | RecursionError | SystemExit

type_synonym 'a io = "world \<Rightarrow> (error + 'a) \<times> world"

definition io_return :: "'a \<Rightarrow> 'a io" where
  "io_return x w = (Inr x, w)"

definition io_raise :: "error \<Rightarrow> 'a io" where
  "io_raise e w = (Inl e, w)"

definition io_bind :: "'a io \<Rightarrow> ('a \<Rightarrow> 'b io) \<Rightarrow> 'b io" where
  "io_bind m k w = (case m w of (Inl e, w') \<Rightarrow> (Inl e, w') | (Inr x, w') \<Rightarrow> k x w')"

text \<open>\<open>for x in xs: body(x)\<close>.\<close>

fun io_for :: "'a list \<Rightarrow> ('a \<Rightarrow> unit io) \<Rightarrow> unit io" where
  "io_for [] body = io_return ()"
| "io_for (x # xs) body = io_bind (body x) (\<lambda>_. io_for xs body)"

definition print :: "string \<Rightarrow> unit io" where
  "print msg w = (Inr (), w\<lparr>stdout := stdout w @ [msg]\<rparr>)"

definition assert :: "bool \<Rightarrow> unit io" where
  "assert b = (if b then io_return () else io_raise AssertionError)"

subsection \<open>Queries\<close>

definition path_exists :: "string \<Rightarrow> bool io" where
  "path_exists p w = (Inr (lookup (disk w) (resolve p) \<noteq> None), w)"

definition isdir :: "string \<Rightarrow> bool io" where
  "isdir p w = (Inr (lookup (disk w) (resolve p) = Some Dir), w)"

definition listdir :: "string \<Rightarrow> string list io" where
  "listdir p w =
     (if lookup (disk w) (resolve p) = Some Dir then (Inr (children (disk w) (resolve p)), w)
      else (Inl OSError, w))"

text \<open>\<open>open(p, 'r').read()\<close>.\<close>

definition read_file :: "string \<Rightarrow> string io" where
  "read_file p w =
     (case lookup (disk w) (resolve p) of
        Some (File c) \<Rightarrow> (Inr c, w)
      | _ \<Rightarrow> (Inl OSError, w))"

subsection \<open>Changes\<close>

definition put :: "path \<Rightarrow> entry \<Rightarrow> world \<Rightarrow> world" where
  "put p e w = w\<lparr>disk := AList.update p e (disk w)\<rparr>"

definition parent_is_dir :: "fs \<Rightarrow> path \<Rightarrow> bool" where
  "parent_is_dir t p \<longleftrightarrow> p \<noteq> [] \<and> lookup t (butlast p) = Some Dir"

text \<open>\<open>os.mkdir\<close> and \<open>os.mknod\<close> on resolved paths: the parent must be a directory and the name free.\<close>

definition mkdir_at :: "path \<Rightarrow> unit io" where
  "mkdir_at p w =
     (if parent_is_dir (disk w) p \<and> lookup (disk w) p = None then (Inr (), put p Dir w)
      else (Inl OSError, w))"

definition mkdir :: "string \<Rightarrow> unit io" where
  "mkdir s = mkdir_at (resolve s)"

definition mknod :: "string \<Rightarrow> unit io" where
  "mknod s w =
     (let p = resolve s
      in if parent_is_dir (disk w) p \<and> lookup (disk w) p = None then (Inr (), put p (File []) w)
         else (Inl OSError, w))"

text \<open>
  \<open>os.makedirs(name)\<close>: the missing ancestors first, then the directory itself, which
  must not exist. (The source swallows FileExistsError from the recursive call; the
  parent was just seen missing, so it cannot be raised there.)
\<close>

function makedirs_at :: "path \<Rightarrow> unit io" where
  "makedirs_at name w =
     (if name \<noteq> [] \<and> lookup (disk w) (butlast name) = None
      then (case makedirs_at (butlast name) w of
              (Inl e, w') \<Rightarrow> (Inl e, w')
            | (Inr u, w') \<Rightarrow> mkdir_at name w')
      else mkdir_at name w)"
  by pat_completeness auto
termination
  by (relation "measure (\<lambda>(name, w). length name)") auto

declare makedirs_at.simps [simp del]

definition makedirs :: "string \<Rightarrow> unit io" where
  "makedirs s = makedirs_at (resolve s)"

text \<open>\<open>with open(p, 'w') as f: f.write(c)\<close>: creates or truncates the file.\<close>

definition write_file :: "string \<Rightarrow> string \<Rightarrow> unit io" where
  "write_file s c w =
     (let p = resolve s
      in case lookup (disk w) p of
           Some Dir \<Rightarrow> (Inl OSError, w)
         | Some (File old) \<Rightarrow> (Inr (), put p (File c) w)
         | None \<Rightarrow> if parent_is_dir (disk w) p then (Inr (), put p (File c) w) else (Inl OSError, w))"

text \<open>\<open>open(p, 'a+')\<close> creates the file if it is missing; a write to it appends.\<close>

definition open_append :: "string \<Rightarrow> unit io" where
  "open_append s w =
     (let p = resolve s
      in case lookup (disk w) p of
           Some Dir \<Rightarrow> (Inl OSError, w)
         | Some (File old) \<Rightarrow> (Inr (), w)
         | None \<Rightarrow> if parent_is_dir (disk w) p then (Inr (), put p (File []) w) else (Inl OSError, w))"

definition append_file :: "string \<Rightarrow> string \<Rightarrow> unit io" where
  "append_file s c w =
     (let p = resolve s
      in case lookup (disk w) p of
           Some (File old) \<Rightarrow> (Inr (), put p (File (old @ c)) w)
         | _ \<Rightarrow> (Inl OSError, w))"

text \<open>
  \<open>shutil.copy2(src, dst)\<close>: into \<open>dst\<close> if it is a directory, under the base name of
  \<open>src\<close>. \<open>copyfile\<close> refuses to copy a file onto itself, opens the source, then the
  destination. The metadata \<open>copystat\<close> copies is not modelled.
\<close>

definition copyfile :: "string \<Rightarrow> string \<Rightarrow> unit io" where
  "copyfile src dst =
     (\<lambda>w. if resolve src = resolve dst \<and> lookup (disk w) (resolve src) \<noteq> None
          then (Inl OSError, w)
          else io_bind (read_file src) (\<lambda>c. write_file dst c) w)"

definition copy2 :: "string \<Rightarrow> string \<Rightarrow> string io" where
  "copy2 src dst =
     io_bind (isdir dst) (\<lambda>d.
       let dst' = (if d then path_join dst [basename src] else dst)
       in io_bind (copyfile src dst') (\<lambda>_. io_return dst'))"

section \<open>simplegit\<close>

definition REPO_DIR :: string where "REPO_DIR = ''.simplegit''"
definition HEAD :: string where "HEAD = ''HEAD''"
definition TO_COMMIT :: string where "TO_COMMIT = ''TO_COMMIT''"
definition TRACKED_LIST :: string where "TRACKED_LIST = ''TRACKED_LIST''"
definition PREV_COMMIT :: string where "PREV_COMMIT = ''PREV_COMMIT''"
definition COMMIT_DIR :: string where "COMMIT_DIR = ''COMMIT_DIR''"

text \<open>The test \<open>f[0] == '.'\<close> of \<open>allFiles\<close>; a directory never lists an empty name.\<close>

definition hidden :: "string \<Rightarrow> bool" where
  "hidden f \<longleftrightarrow> f \<noteq> [] \<and> hd f = CHR ''.''"

lemma split_on_nonempty: "split_on d xs \<noteq> []"
  by (induction xs) (auto split: list.splits)

lemma split_on_append_sep:
  "split_on d (xs @ d # ys) = split_on d xs @ split_on d ys"
  by (induction xs) (auto simp: split_on_nonempty split: list.splits)

lemma split_on_no_sep: "d \<notin> set n \<Longrightarrow> split_on d n = [n]"
  by (induction n) auto

lemma resolve_join2_name:
  assumes "valid_name n"
  shows "resolve (join2 a n) = resolve a @ [n]"
proof -
  from assms have n: "n \<noteq> []" "n \<noteq> ''.''" "SEP \<notin> set n"
    by (auto simp: valid_name_def)
  then have hd: "hd n \<noteq> SEP"
    by (cases n) auto
  have one: "split_on SEP n = [n]"
    using n by (simp add: split_on_no_sep)
  show ?thesis
  proof (cases "a = []")
    case True
    then show ?thesis
      using n hd one by (simp add: join2_def resolve_def)
  next
    case False
    show ?thesis
    proof (cases "last a = SEP")
      case True
      with False obtain xs where a: "a = xs @ [SEP]"
        by (metis append_butlast_last_id)
      have "a @ n = xs @ SEP # n"
        by (simp add: a)
      then show ?thesis
        using n hd one True False
        by (simp add: join2_def resolve_def split_on_append_sep a)
    next
      case nosep: False
      then show ?thesis
        using n hd one False
        by (simp add: join2_def resolve_def split_on_append_sep)
    qed
  qed
qed

lemma children_key:
  "n \<in> set (children t d) \<Longrightarrow> valid_name n \<and> d @ [n] \<in> fst ` set t"
  by (force simp: children_def image_iff)

text \<open>
  \<open>allFiles\<close>: the loop over \<open>os.walk(path)\<close>, top down. \<open>os.walk\<close> lists a directory,
  hands its sub-directories and its other entries to the loop body, which drops the
  hidden names from both lists, and then walks into the sub-directories that are left.
  A directory that cannot be listed gives nothing (\<open>os.walk\<close> ignores the error).
\<close>

function walk_files :: "fs \<Rightarrow> string \<Rightarrow> string list" where
  "walk_files t root =
     (if lookup t (resolve root) \<noteq> Some Dir then []
      else
        (let names = children t (resolve root);
             dirs = filter (\<lambda>n. lookup t (resolve root @ [n]) = Some Dir) names;
             nondirs = filter (\<lambda>n. lookup t (resolve root @ [n]) \<noteq> Some Dir) names;
             files = filter (\<lambda>f. \<not> hidden f) nondirs;
             dirs' = filter (\<lambda>d. \<not> hidden d) dirs
         in map (\<lambda>file. normpath (path_join root [file])) files
            @ concat (map (\<lambda>d. walk_files t (path_join root [d])) dirs')))"
  by pat_completeness auto
termination
proof (relation "measure (\<lambda>(t, root). Suc (Max (insert 0 (length ` fst ` set t))) - length (resolve root))",
    goal_cases)
  case 1
  show ?case by simp
next
  case (2 t root names dirs nondirs files dirs' d)
  then have "d \<in> set (children t (resolve root))"
    by auto
  then have v: "valid_name d" and k: "resolve root @ [d] \<in> fst ` set t"
    using children_key by blast+
  have "length (resolve root @ [d]) \<in> insert 0 (length ` fst ` set t)"
    using k by blast
  then have "length (resolve root @ [d]) \<le> Max (insert 0 (length ` fst ` set t))"
    by (intro Max_ge) auto
  moreover have "resolve (path_join root [d]) = resolve root @ [d]"
    using v by (simp add: path_join_def resolve_join2_name)
  ultimately show ?case
    by simp
qed

declare walk_files.simps [simp del]

definition allFiles :: "string \<Rightarrow> string list io" where
  "allFiles p w = (Inr (walk_files (disk w) p), w)"


definition changePathsRef :: "string \<Rightarrow> string \<Rightarrow> string list \<Rightarrow> string list" where
  "changePathsRef initAbsolutePath destAbsolutePath fs =
     (let fileAbsolutePaths = map (\<lambda>f. normpath (path_join initAbsolutePath [f])) fs
      in map (\<lambda>f. relpath f destAbsolutePath) fileAbsolutePaths)"

definition lastCommitHash :: "string \<Rightarrow> string io" where
  "lastCommitHash repoPath =
     io_bind (read_file (normpath (path_join repoPath [REPO_DIR, HEAD])))
       (\<lambda>c. io_return (strip (readline c)))"


definition toCommitList :: "string \<Rightarrow> string list io" where
  "toCommitList repoPath =
     io_bind (read_file (normpath (path_join repoPath [REPO_DIR, TO_COMMIT])))
       (\<lambda>c. io_return (splitlines c))"

text \<open>
  The first loop of \<open>add\<close>. It carries the two local lists \<open>dirs\<close> and
  \<open>toCommitAsList\<close> and returns \<open>dirs\<close>; \<open>toCommit.write\<close> appends to the file
  opened with \<open>'a+'\<close>.
\<close>

fun add_files :: "string \<Rightarrow> string list \<Rightarrow> string list \<Rightarrow> string list \<Rightarrow> string list io" where
  "add_files repoPath [] dirs toCommitAsList = io_return dirs"
| "add_files repoPath (file # rest) dirs toCommitAsList =
     (let filePath = normpath (path_join repoPath [file])
      in io_bind (path_exists filePath) (\<lambda>ex.
           if \<not> ex then
             io_bind (print (''ERROR: '' @ filePath @ '' doesn't exist!''))
               (\<lambda>_. add_files repoPath rest dirs toCommitAsList)
           else io_bind (isdir filePath) (\<lambda>d.
             if d then add_files repoPath rest (dirs @ [file]) toCommitAsList
             else if file \<notin> set toCommitAsList then
               io_bind (append_file (normpath (path_join repoPath [REPO_DIR, TO_COMMIT])) (file @ [NL]))
                 (\<lambda>_. add_files repoPath rest dirs (toCommitAsList @ [file]))
             else add_files repoPath rest dirs toCommitAsList)))"

text \<open>
  \<open>add\<close> calls itself for every directory among its arguments. \<open>depth\<close> is the number
  of nested calls the interpreter still allows: Python raises RecursionError beyond its
  recursion limit.
\<close>

fun add :: "nat \<Rightarrow> string \<Rightarrow> string list \<Rightarrow> unit io" where
  "add 0 repoPath fs = io_raise RecursionError"
| "add (Suc depth) repoPath fs =
     io_bind (toCommitList repoPath) (\<lambda>toCommitAsList.
     io_bind (open_append (normpath (path_join repoPath [REPO_DIR, TO_COMMIT]))) (\<lambda>_.
     io_bind (add_files repoPath fs [] toCommitAsList) (\<lambda>dirs.
     io_for dirs (\<lambda>dir.
       io_bind (listdir (normpath (path_join repoPath [dir]))) (\<lambda>filesInSubdir.
         add depth repoPath (map (\<lambda>f. normpath (path_join dir [f])) filesInSubdir))))))"

definition generateDirTree :: "string \<Rightarrow> string list \<Rightarrow> unit io" where
  "generateDirTree repoPath fs =
     io_bind (lastCommitHash repoPath) (\<lambda>h.
     io_bind (assert (h \<noteq> [])) (\<lambda>_.
     io_bind (lastCommitHash repoPath) (\<lambda>h'.
       let dstPath = normpath (path_join repoPath [REPO_DIR, h', COMMIT_DIR])
       in io_for fs (\<lambda>f.
            let srcPath = normpath (path_join repoPath [f]);
                newFilePath = normpath (path_join dstPath [f])
            in io_bind (isdir (dirname newFilePath)) (\<lambda>d.
               io_bind (if \<not> d then makedirs newFilePath else io_return ()) (\<lambda>_.
               io_bind (copy2 srcPath newFilePath) (\<lambda>_. io_return ())))))))"

text \<open>\<open>commit\<close>; \<open>newCommitHash\<close> is what \<open>uuid.uuid4().hex\<close> returned.\<close>

definition commit :: "string \<Rightarrow> string \<Rightarrow> unit io" where
  "commit repoPath newCommitHash =
     (let newPath = normpath (path_join repoPath [REPO_DIR, newCommitHash]);
          toCommit = normpath (path_join repoPath [REPO_DIR, TO_COMMIT]);
          commitDir = normpath (path_join newPath [COMMIT_DIR]);
          tracked = normpath (path_join newPath [TRACKED_LIST]);
          prev = normpath (path_join newPath [PREV_COMMIT])
      in io_bind (path_exists newPath) (\<lambda>ex.
         io_bind (assert (\<not> ex)) (\<lambda>_.
         io_bind (mkdir newPath) (\<lambda>_.
         io_bind (mkdir commitDir) (\<lambda>_.
         io_bind (mknod tracked) (\<lambda>_.
         io_bind (mknod prev) (\<lambda>_.
         io_bind (lastCommitHash repoPath) (\<lambda>lastCommitName.
         io_bind (if lastCommitName \<noteq> [] then write_file prev lastCommitName else io_return ()) (\<lambda>_.
         io_bind (write_file (normpath (path_join repoPath [REPO_DIR, HEAD])) newCommitHash) (\<lambda>_.
         io_bind (write_file tracked []) (\<lambda>_.
         io_bind (read_file toCommit) (\<lambda>ls.
         io_bind (write_file tracked (universal_newlines ls)) (\<lambda>_.
         io_bind (toCommitList repoPath) (\<lambda>l.
         generateDirTree repoPath l))))))))))))))"

definition wasCommited :: "string \<Rightarrow> string \<Rightarrow> bool io" where
  "wasCommited repoPath file =
     io_bind (lastCommitHash repoPath) (\<lambda>comm.
       let tracked = normpath (path_join repoPath [REPO_DIR, comm, TRACKED_LIST])
       in if comm = [] then io_return False
          else io_bind (read_file tracked) (\<lambda>c. io_return (file \<in> set (splitlines c))))"

definition wasAdded :: "string \<Rightarrow> string \<Rightarrow> bool io" where
  "wasAdded repoPath file =
     (let added = normpath (path_join repoPath [REPO_DIR, TO_COMMIT])
      in io_bind (read_file added) (\<lambda>c. io_return (file \<in> set (splitlines c))))"

definition status :: "string \<Rightarrow> unit io" where
  "status repoPath =
     io_bind (allFiles repoPath) (\<lambda>found.
       let fs = changePathsRef [SEP] repoPath found
       in io_for fs (\<lambda>f.
            io_bind (wasCommited repoPath f) (\<lambda>c.
              if \<not> c then
                io_bind (wasAdded repoPath f) (\<lambda>a.
                  if \<not> a then print (f @ '' (new file)'')
                  else print (f @ '' (added and waiting to commit)''))
              else io_return ())))"

section \<open>Facts about paths, commands and the store\<close>

definition absolute_clean :: "string \<Rightarrow> bool" where
  "absolute_clean p \<longleftrightarrow> take 1 p = [SEP] \<and> ''..'' \<notin> set (split_on SEP p)"

definition relative_clean :: "string \<Rightarrow> bool" where
  "relative_clean f \<longleftrightarrow> take 1 f \<noteq> [SEP] \<and> ''..'' \<notin> set (split_on SEP f)"

lemma split_on_sep_free: "c \<in> set (split_on d xs) \<Longrightarrow> d \<notin> set c"
  by (induction xs arbitrary: c) (auto split: list.splits if_splits)

lemma split_on_join_sep:
  "cs \<noteq> [] \<Longrightarrow> list_all (\<lambda>c. SEP \<notin> set c) cs \<Longrightarrow> split_on SEP (join_sep cs) = cs"
proof (induction cs rule: join_sep.induct)
  case 1
  then show ?case by simp
next
  case (2 c)
  then show ?case by (simp add: split_on_no_sep)
next
  case (3 c d cs)
  then show ?case by (simp add: split_on_append_sep split_on_no_sep)
qed

lemma norm_comps_clean:
  "''..'' \<notin> set cs \<Longrightarrow> norm_comps i new cs = new @ filter (\<lambda>c. c \<noteq> [] \<and> c \<noteq> ''.'') cs"
  by (induction cs arbitrary: new) auto

lemma split_on_snoc_sep: "split_on d (xs @ [d]) = split_on d xs @ [[]]"
  using split_on_append_sep [of d xs "[]"] by simp

lemma split_on_join2:
  assumes "take 1 b \<noteq> [SEP]"
  shows "split_on SEP (join2 a b) =
     (if a = [] then split_on SEP b
      else if last a = SEP then split_on SEP (butlast a) @ split_on SEP b
      else split_on SEP a @ split_on SEP b)"
proof -
  from assms have b: "\<not> (b \<noteq> [] \<and> hd b = SEP)"
    by (cases b) auto
  show ?thesis
  proof (cases "a \<noteq> [] \<and> last a = SEP")
    case True
    then have a: "a = butlast a @ [SEP]"
      by (metis append_butlast_last_id)
    have "join2 a b = butlast a @ SEP # b"
      using b True by (simp add: join2_def) (metis a append.assoc append_Cons append_Nil)
    then show ?thesis
      using True by (simp add: split_on_append_sep)
  next
    case False
    then show ?thesis
      using b by (auto simp: join2_def split_on_append_sep)
  qed
qed

lemma split_on_last_sep:
  assumes "a \<noteq> []" "last a = SEP"
  shows "split_on SEP a = split_on SEP (butlast a) @ [[]]"
proof -
  from assms have "a = butlast a @ [SEP]"
    by (metis append_butlast_last_id)
  then have "split_on SEP a = split_on SEP (butlast a @ [SEP])"
    by simp
  then show ?thesis
    by (simp only: split_on_snoc_sep)
qed

lemma resolve_join2:
  "take 1 b \<noteq> [SEP] \<Longrightarrow> resolve (join2 a b) = resolve a @ resolve b"
  by (auto simp: resolve_def split_on_join2 split_on_last_sep)

lemma dotdot_join2:
  "take 1 b \<noteq> [SEP] \<Longrightarrow> ''..'' \<in> set (split_on SEP (join2 a b)) \<longleftrightarrow>
     ''..'' \<in> set (split_on SEP a) \<or> ''..'' \<in> set (split_on SEP b)"
  by (auto simp: split_on_join2 split_on_last_sep)

lemma take1_join2: "take 1 a = [SEP] \<Longrightarrow> take 1 b \<noteq> [SEP] \<Longrightarrow> take 1 (join2 a b) = [SEP]"
  by (cases a; cases b) (auto simp: join2_def)

lemma absolute_clean_join2:
  "absolute_clean a \<Longrightarrow> relative_clean b \<Longrightarrow> absolute_clean (join2 a b)"
  unfolding absolute_clean_def relative_clean_def using dotdot_join2 take1_join2 by blast

lemma resolve_normpath:
  assumes "absolute_clean s"
  shows "resolve (normpath s) = resolve s" and "absolute_clean (normpath s)"
proof -
  let ?cs = "filter (\<lambda>c. c \<noteq> [] \<and> c \<noteq> ''.'') (split_on SEP s)"
  from assms have s: "s \<noteq> []" "take 1 s = [SEP]" and dd: "''..'' \<notin> set (split_on SEP s)"
    by (auto simp: absolute_clean_def)
  have n: "initial_slashes s = 1 \<or> initial_slashes s = 2"
    using s by (simp add: initial_slashes_def)
  have np: "normpath s = replicate (initial_slashes s) SEP @ join_sep ?cs"
    using s n by (auto simp: normpath_def Let_def norm_comps_clean [OF dd])
  have free: "list_all (\<lambda>c. SEP \<notin> set c) ?cs"
    by (auto simp: list_all_iff dest: split_on_sep_free)
  have sp: "split_on SEP (join_sep ?cs) = (if ?cs = [] then [[]] else ?cs)"
    using free by (simp add: split_on_join_sep)
  have sp2: "split_on SEP (normpath s) = replicate (initial_slashes s) [] @ (if ?cs = [] then [[]] else ?cs)"
    using n sp by (auto simp: np numeral_2_eq_2)
  show "resolve (normpath s) = resolve s"
    using n by (auto simp: resolve_def sp2)
  have "take 1 (normpath s) = [SEP]"
    using n by (auto simp: np)
  moreover have "''..'' \<notin> set (split_on SEP (normpath s))"
    using dd n by (auto simp: sp2)
  ultimately show "absolute_clean (normpath s)"
    by (simp add: absolute_clean_def)
qed


lemma relative_clean_name: "valid_name n \<Longrightarrow> relative_clean n"
  by (cases n) (auto simp: relative_clean_def valid_name_def split_on_no_sep)

lemma resolve_name: "valid_name n \<Longrightarrow> resolve n = [n]"
  by (auto simp: resolve_def valid_name_def split_on_no_sep)

lemma path_join_snoc: "path_join a (bs @ [b]) = join2 (path_join a bs) b"
  by (simp add: path_join_def)

lemma path_join_clean:
  "absolute_clean a \<Longrightarrow> list_all relative_clean bs \<Longrightarrow>
   absolute_clean (path_join a bs) \<and> resolve (path_join a bs) = resolve a @ concat (map resolve bs)"
proof (induction bs rule: rev_induct)
  case Nil
  then show ?case by (simp add: path_join_def)
next
  case (snoc b bs)
  then have ih: "absolute_clean (path_join a bs)"
      "resolve (path_join a bs) = resolve a @ concat (map resolve bs)"
    and b: "relative_clean b"
    by auto
  from b have rel: "take 1 b \<noteq> [SEP]"
    by (simp add: relative_clean_def)
  show ?case
    using ih b by (simp add: path_join_snoc absolute_clean_join2 resolve_join2 [OF rel])
qed

lemma resolve_norm_join:
  assumes "absolute_clean a" "list_all relative_clean bs"
  shows "resolve (normpath (path_join a bs)) = resolve a @ concat (map resolve bs)"
    and "absolute_clean (normpath (path_join a bs))"
  using assms path_join_clean [of a bs] resolve_normpath [of "path_join a bs"] by auto


lemma io_bind_ok: "m w = (Inr x, w1) \<Longrightarrow> io_bind m k w = k x w1"
  by (simp add: io_bind_def)

lemma io_bind_fail: "m w = (Inl e, w1) \<Longrightarrow> io_bind m k w = (Inl e, w1)"
  by (simp add: io_bind_def)

lemma lookup_put:
  "p \<noteq> [] \<Longrightarrow> lookup (disk (put p e w)) q = (if q = p then Some e else lookup (disk w) q)"
  by (simp add: put_def lookup_def update_conv')

lemma stdout_put: "stdout (put p e w) = stdout w"
  by (simp add: put_def)














definition commit_id :: "string \<Rightarrow> bool" where
  "commit_id h \<longleftrightarrow> length h = 32 \<and> list_all (\<lambda>c. c \<in> set ''0123456789abcdef'') h"

definition git_path :: "string \<Rightarrow> string list \<Rightarrow> path" where
  "git_path repoPath names = resolve repoPath @ REPO_DIR # names"

lemma valid_consts:
  "valid_name REPO_DIR" "valid_name HEAD" "valid_name TO_COMMIT" "valid_name TRACKED_LIST"
  "valid_name PREV_COMMIT" "valid_name COMMIT_DIR"
  by (simp_all add: valid_name_def REPO_DIR_def HEAD_def TO_COMMIT_def TRACKED_LIST_def
      PREV_COMMIT_def COMMIT_DIR_def)

lemma hex_char:
  assumes "c \<in> set ''0123456789abcdef''"
  shows "c \<noteq> SEP" "\<not> isspace c" "c \<noteq> NL" "c \<noteq> CR" "c \<noteq> CHR ''.''"
  using assms by (auto simp: isspace_def)

lemma commit_id_chars:
  assumes "commit_id h" "c \<in> set h"
  shows "c \<noteq> SEP" "\<not> isspace c" "c \<noteq> NL" "c \<noteq> CR" "c \<noteq> CHR ''.''"
proof -
  from assms have "c \<in> set ''0123456789abcdef''"
    unfolding commit_id_def list_all_iff by blast
  then show "c \<noteq> SEP" "\<not> isspace c" "c \<noteq> NL" "c \<noteq> CR" "c \<noteq> CHR ''.''"
    by (rule hex_char)+
qed

lemma commit_id_valid:
  assumes "commit_id h"
  shows "valid_name h"
proof -
  from assms have len: "length h = 32"
    by (simp add: commit_id_def)
  then have "h \<noteq> []" "h \<noteq> ''.''" "h \<noteq> ''..''"
    by auto
  moreover have "SEP \<notin> set h"
    using commit_id_chars(1) [OF assms] by blast
  ultimately show ?thesis
    by (simp add: valid_name_def)
qed

lemma commit_id_not_const:
  assumes "commit_id h"
  shows "h \<noteq> HEAD \<and> h \<noteq> TO_COMMIT \<and> h \<noteq> []"
proof -
  from assms have "length h = 32"
    by (simp add: commit_id_def)
  then show ?thesis
    by (auto simp: HEAD_def TO_COMMIT_def)
qed

lemma strip_id: "list_all (\<lambda>c. \<not> isspace c) s \<Longrightarrow> strip s = s"
proof -
  assume a: "list_all (\<lambda>c. \<not> isspace c) s"
  then have 1: "dropWhile isspace s = s"
    by (cases s) auto
  from a have "list_all (\<lambda>c. \<not> isspace c) (rev s)"
    by (simp add: list_all_iff)
  then have 2: "dropWhile isspace (rev s) = rev s"
    by (cases "rev s") auto
  show ?thesis
    by (simp add: strip_def 1 2)
qed

lemma readline_id: "list_all (\<lambda>c. c \<noteq> NL \<and> c \<noteq> CR) s \<Longrightarrow> readline s = s"
proof -
  assume "list_all (\<lambda>c. c \<noteq> NL \<and> c \<noteq> CR) s"
  then have tw: "takeWhile (\<lambda>c. c \<noteq> NL \<and> c \<noteq> CR) s = s"
    by (simp add: list_all_iff)
  show ?thesis
    unfolding readline_def Let_def tw by simp
qed

lemma commit_id_strip: "commit_id h \<Longrightarrow> strip (readline h) = h"
  using commit_id_chars [of h]
  by (simp add: readline_id strip_id list_all_iff)

lemma resolve_git:
  assumes "absolute_clean repoPath" "list_all valid_name names"
  shows "resolve (normpath (path_join repoPath (REPO_DIR # names))) = git_path repoPath names"
    and "absolute_clean (normpath (path_join repoPath (REPO_DIR # names)))"
proof -
  have rc: "list_all relative_clean (REPO_DIR # names)"
    using assms(2) valid_consts(1) by (auto simp: list_all_iff relative_clean_name)
  have "concat (map resolve (REPO_DIR # names)) = REPO_DIR # names"
    using assms(2) valid_consts(1) by (induction names) (auto simp: resolve_name)
  then show "resolve (normpath (path_join repoPath (REPO_DIR # names))) = git_path repoPath names"
    using resolve_norm_join(1) [OF assms(1) rc] by (simp add: git_path_def)
  show "absolute_clean (normpath (path_join repoPath (REPO_DIR # names)))"
    using resolve_norm_join(2) [OF assms(1) rc] .
qed

lemma resolve_git2:
  assumes "absolute_clean repoPath" "list_all valid_name names" "list_all relative_clean bs"
  shows "resolve (normpath (path_join (normpath (path_join repoPath (REPO_DIR # names))) bs))
         = git_path repoPath names @ concat (map resolve bs)"
  using resolve_git [OF assms(1,2)] resolve_norm_join(1) [OF _ assms(3)] by simp

lemma lastCommitHash_eq:
  assumes "absolute_clean repoPath"
  shows "lastCommitHash repoPath w =
     (case lookup (disk w) (git_path repoPath [HEAD]) of
        Some (File c) \<Rightarrow> (Inr (strip (readline c)), w)
      | _ \<Rightarrow> (Inl OSError, w))"
  using resolve_git(1) [OF assms, of "[HEAD]"] valid_consts
  by (simp add: lastCommitHash_def io_bind_def read_file_def io_return_def
      split: option.splits entry.splits)

lemma toCommitList_eq:
  assumes "absolute_clean repoPath"
  shows "toCommitList repoPath w =
     (case lookup (disk w) (git_path repoPath [TO_COMMIT]) of
        Some (File c) \<Rightarrow> (Inr (splitlines c), w)
      | _ \<Rightarrow> (Inl OSError, w))"
  using resolve_git(1) [OF assms, of "[TO_COMMIT]"] valid_consts
  by (simp add: toCommitList_def io_bind_def read_file_def io_return_def
      split: option.splits entry.splits)

section \<open>Snapshots\<close>

text \<open>A commit identifier, as \<open>uuid.uuid4().hex\<close> gives them, and a small repository.\<close>

definition id1 :: string where
  "id1 = ''0123456789abcdef0123456789abcdef''"

definition nested_example :: world where
  "nested_example = \<lparr>disk =
     [([''r''], Dir),
      ([''r'', ''sub''], Dir),
      ([''r'', ''sub'', ''a.txt''], File ''x''),
      ([''r'', ''.simplegit''], Dir),
      ([''r'', ''.simplegit'', ''HEAD''], File []),
      ([''r'', ''.simplegit'', ''TO_COMMIT''], File (''sub/a.txt'' @ [NL]))],
     stdout = []\<rparr>"

lemma nested_example_commit:
  "commit ''/r'' id1 nested_example =
     (Inr (), \<lparr>disk =
     [([''r''], Dir),
      ([''r'', ''sub''], Dir),
      ([''r'', ''sub'', ''a.txt''], File ''x''),
      ([''r'', ''.simplegit''], Dir),
      ([''r'', ''.simplegit'', ''HEAD''], File id1),
      ([''r'', ''.simplegit'', ''TO_COMMIT''], File (''sub/a.txt'' @ [NL])),
      ([''r'', ''.simplegit'', id1], Dir),
      ([''r'', ''.simplegit'', id1, ''COMMIT_DIR''], Dir),
      ([''r'', ''.simplegit'', id1, ''TRACKED_LIST''], File (''sub/a.txt'' @ [NL])),
      ([''r'', ''.simplegit'', id1, ''PREV_COMMIT''], File []),
      ([''r'', ''.simplegit'', id1, ''COMMIT_DIR'', ''sub''], Dir),
      ([''r'', ''.simplegit'', id1, ''COMMIT_DIR'', ''sub'', ''a.txt''], Dir),
      ([''r'', ''.simplegit'', id1, ''COMMIT_DIR'', ''sub'', ''a.txt'', ''a.txt''], File ''x'')],
     stdout = []\<rparr>)"
  by code_simp

text \<open>
  Claim C1 (snapshot fidelity) on a path in a sub-directory. The repository \<open>/r\<close>
  holds \<open>sub/a.txt\<close> with the byte \<open>x\<close>, the staging list is \<open>sub/a.txt\<close>, and
  nothing has been committed. \<open>commit\<close> succeeds, but \<open>generateDirTree\<close> calls
  \<open>os.makedirs\<close> on the path of the file itself, not on its directory: in the
  snapshot \<open>sub/a.txt\<close> is a directory, and the bytes are one level deeper, in
  \<open>sub/a.txt/a.txt\<close>.
\<close>

theorem commit_nested_path_snapshot:
  "fst (commit ''/r'' id1 nested_example) = Inr () \<and>
   fst (isdir (''/r/.simplegit/'' @ id1 @ ''/COMMIT_DIR/sub/a.txt'')
          (snd (commit ''/r'' id1 nested_example))) = Inr True \<and>
   fst (read_file (''/r/.simplegit/'' @ id1 @ ''/COMMIT_DIR/sub/a.txt'')
          (snd (commit ''/r'' id1 nested_example))) = Inl OSError \<and>
   fst (read_file (''/r/.simplegit/'' @ id1 @ ''/COMMIT_DIR/sub/a.txt/a.txt'')
          (snd (commit ''/r'' id1 nested_example))) = Inr ''x''"
  unfolding nested_example_commit by code_simp

section \<open>Status\<close>

lemma read_file_stdout:
  "read_file p w = (r, w1) \<Longrightarrow> read_file p (w\<lparr>stdout := out\<rparr>) = (r, w\<lparr>stdout := out\<rparr>)"
  by (auto simp: read_file_def split: option.splits entry.splits)

lemma lastCommitHash_stdout:
  "lastCommitHash repoPath w = (r, w1) \<Longrightarrow>
   lastCommitHash repoPath (w\<lparr>stdout := out\<rparr>) = (r, w\<lparr>stdout := out\<rparr>)"
  unfolding lastCommitHash_def
  by (auto simp: io_bind_def io_return_def read_file_def split: option.splits entry.splits)

lemma toCommitList_wasAdded:
  "toCommitList repoPath w = (Inr staged, w1) \<Longrightarrow>
   wasAdded repoPath f (w\<lparr>stdout := out\<rparr>) = (Inr (f \<in> set staged), w\<lparr>stdout := out\<rparr>)"
  unfolding toCommitList_def wasAdded_def
  by (auto simp: io_bind_def io_return_def read_file_def Let_def split: option.splits entry.splits)

lemma io_for_prints:
  assumes "\<And>f out. f \<in> set fs \<Longrightarrow> body f (w\<lparr>stdout := out\<rparr>) = (Inr (), w\<lparr>stdout := out @ g f\<rparr>)"
  shows "io_for fs body (w\<lparr>stdout := out\<rparr>) = (Inr (), w\<lparr>stdout := out @ concat (map g fs)\<rparr>)"
  using assms
proof (induction fs arbitrary: out)
  case Nil
  then show ?case by (simp add: io_return_def)
next
  case (Cons f fs)
  have "body f (w\<lparr>stdout := out\<rparr>) = (Inr (), w\<lparr>stdout := out @ g f\<rparr>)"
    using Cons.prems by simp
  moreover have "io_for fs body (w\<lparr>stdout := out @ g f\<rparr>) =
      (Inr (), w\<lparr>stdout := (out @ g f) @ concat (map g fs)\<rparr>)"
    using Cons.IH [of "out @ g f"] Cons.prems by simp
  ultimately show ?case
    by (simp add: io_bind_def)
qed

lemma wasCommited_empty:
  assumes "lastCommitHash repoPath w = (Inr [], w1)"
  shows "wasCommited repoPath f w = (Inr False, w)"
proof -
  have "w1 = w"
    using assms unfolding lastCommitHash_def
    by (auto simp: io_bind_def io_return_def read_file_def split: option.splits entry.splits)
  then show ?thesis
    using assms by (simp add: wasCommited_def io_bind_def io_return_def)
qed

lemma lastCommitHash_snd: "snd (lastCommitHash repoPath w) = w"
  unfolding lastCommitHash_def
  by (auto simp: io_bind_def io_return_def read_file_def split: option.splits entry.splits)

lemma toCommitList_snd: "snd (toCommitList repoPath w) = w"
  unfolding toCommitList_def
  by (auto simp: io_bind_def io_return_def read_file_def split: option.splits entry.splits)

text \<open>
  Claim C9. While HEAD is empty, \<open>wasCommited\<close> answers False for every path, and
  \<open>status\<close> prints one line for every file it finds: the staged line if the path is in
  the staging list, the new-file line otherwise. No file is passed over as committed.
\<close>

theorem status_before_first_commit:
  assumes head: "fst (lastCommitHash repoPath w) = Inr []"
    and staged: "fst (toCommitList repoPath w) = Inr staged"
  shows "wasCommited repoPath file w = (Inr False, w) \<and>
     status repoPath w =
       (Inr (), w\<lparr>stdout := stdout w @
          map (\<lambda>f. if f \<in> set staged then f @ '' (added and waiting to commit)''
                    else f @ '' (new file)'')
            (changePathsRef [SEP] repoPath (walk_files (disk w) repoPath))\<rparr>)"
proof
  have h1: "lastCommitHash repoPath w = (Inr [], w)"
    using head lastCommitHash_snd [of repoPath w] by (metis prod.collapse)
  have h2: "toCommitList repoPath w = (Inr staged, w)"
    using staged toCommitList_snd [of repoPath w] by (metis prod.collapse)
  show "wasCommited repoPath file w = (Inr False, w)"
    using h1 by (rule wasCommited_empty)
  let ?g = "\<lambda>f. [if f \<in> set staged then f @ '' (added and waiting to commit)''
                    else f @ '' (new file)'']"
  let ?fs = "changePathsRef [SEP] repoPath (walk_files (disk w) repoPath)"
  let ?body = "\<lambda>f. io_bind (wasCommited repoPath f) (\<lambda>c.
              if \<not> c then
                io_bind (wasAdded repoPath f) (\<lambda>a.
                  if \<not> a then print (f @ '' (new file)'')
                  else print (f @ '' (added and waiting to commit)''))
              else io_return ())"
  have body: "?body f (w\<lparr>stdout := out\<rparr>) = (Inr (), w\<lparr>stdout := out @ ?g f\<rparr>)" for f out
  proof -
    have "lastCommitHash repoPath (w\<lparr>stdout := out\<rparr>) = (Inr [], w\<lparr>stdout := out\<rparr>)"
      using h1 by (rule lastCommitHash_stdout)
    then have c: "wasCommited repoPath f (w\<lparr>stdout := out\<rparr>) = (Inr False, w\<lparr>stdout := out\<rparr>)"
      by (rule wasCommited_empty)
    have a: "wasAdded repoPath f (w\<lparr>stdout := out\<rparr>) = (Inr (f \<in> set staged), w\<lparr>stdout := out\<rparr>)"
      using h2 by (rule toCommitList_wasAdded)
    show ?thesis
      using c a by (simp add: io_bind_def print_def)
  qed
  have "io_for ?fs ?body (w\<lparr>stdout := stdout w\<rparr>) =
      (Inr (), w\<lparr>stdout := stdout w @ concat (map ?g ?fs)\<rparr>)"
    by (rule io_for_prints) (rule body)
  moreover have "concat (map ?g ?fs) = map (\<lambda>f. if f \<in> set staged then f @ '' (added and waiting to commit)''
                    else f @ '' (new file)'') ?fs"
    by (induction ?fs) auto
  ultimately show "status repoPath w =
       (Inr (), w\<lparr>stdout := stdout w @
          map (\<lambda>f. if f \<in> set staged then f @ '' (added and waiting to commit)''
                    else f @ '' (new file)'') ?fs\<rparr>)"
    by (simp add: status_def allFiles_def io_bind_def Let_def)
qed

text \<open>A repository with one staged file, one untracked file and no commit.\<close>

definition fresh_example :: world where
  "fresh_example = \<lparr>disk =
     [([''r''], Dir),
      ([''r'', ''a.txt''], File ''x''),
      ([''r'', ''b.txt''], File ''y''),
      ([''r'', ''.simplegit''], Dir),
      ([''r'', ''.simplegit'', ''HEAD''], File []),
      ([''r'', ''.simplegit'', ''TO_COMMIT''], File (''a.txt'' @ [NL]))],
     stdout = []\<rparr>"

theorem status_before_first_commit_witness:
  "wasCommited ''/r'' ''a.txt'' fresh_example = (Inr False, fresh_example) \<and>
   stdout (snd (status ''/r'' fresh_example)) =
     [''a.txt (added and waiting to commit)'', ''b.txt (new file)'']"
proof -
  have h1: "fst (lastCommitHash ''/r'' fresh_example) = Inr []"
    by code_simp
  have h2: "fst (toCommitList ''/r'' fresh_example) = Inr [''a.txt'']"
    by code_simp
  have fs: "changePathsRef [SEP] ''/r'' (walk_files (disk fresh_example) ''/r'') = [''a.txt'', ''b.txt'']"
    by code_simp
  have out: "stdout fresh_example = []"
    by (simp add: fresh_example_def)
  show ?thesis
    using status_before_first_commit [OF h1 h2, of "''a.txt''"] by (simp add: fs out)
qed

section \<open>Staging\<close>














lemma lookup_file_nonempty: "lookup t p = Some (File c) \<Longrightarrow> p \<noteq> []"
  by (auto simp: lookup_def split: if_splits)




text \<open>A working tree with two names that hold a line boundary, and a staging file that does
  not end in a line feed.\<close>

definition names_example :: world where
  "names_example = \<lparr>disk =
     [([''r''], Dir),
      ([''r'', ''a''], File ''x''),
      ([''r'', ''a'' @ [CHR 0x0B] @ ''b''], File ''y''),
      ([''r'', ''a'' @ [NL] @ ''a''], File ''z''),
      ([''r'', ''.simplegit''], Dir),
      ([''r'', ''.simplegit'', ''HEAD''], File []),
      ([''r'', ''.simplegit'', ''TO_COMMIT''], File [])],
     stdout = []\<rparr>"

definition ragged_example :: world where
  "ragged_example = \<lparr>disk =
     [([''r''], Dir),
      ([''r'', ''a''], File ''x''),
      ([''r'', ''.simplegit''], Dir),
      ([''r'', ''.simplegit'', ''HEAD''], File []),
      ([''r'', ''.simplegit'', ''TO_COMMIT''], File ''b'')],
     stdout = []\<rparr>"

text \<open>
  Claim C7 as it is stated, for any repository state and any regular file, fails in three
  ways. A file whose name holds a vertical tab is appended again by every \<open>add\<close>, because
  the staging file is read back as two lines. After \<open>add\<close> of a file whose name is
  \<open>a\<close>, a line feed and \<open>a\<close>, the list holds \<open>a\<close> twice, and \<open>add a\<close> leaves both
  entries. And when the staging file does not end in a line feed, \<open>add a a\<close> leaves no
  entry \<open>a\<close> at all.
\<close>

theorem add_not_idempotent:
  "fst (toCommitList ''/r''
     (snd (add 1 ''/r'' [''a'' @ [CHR 0x0B] @ ''b'']
        (snd (add 1 ''/r'' [''a'' @ [CHR 0x0B] @ ''b''] names_example)))))
     = Inr [''a'', ''b'', ''a'', ''b''] \<and>
   fst (toCommitList ''/r'' (snd (add 1 ''/r'' [''a'' @ [NL] @ ''a''] names_example)))
     = Inr [''a'', ''a''] \<and>
   fst (toCommitList ''/r''
     (snd (add 1 ''/r'' [''a''] (snd (add 1 ''/r'' [''a'' @ [NL] @ ''a''] names_example)))))
     = Inr [''a'', ''a''] \<and>
   fst (toCommitList ''/r'' (snd (add 1 ''/r'' [''a'', ''a''] ragged_example))) = Inr [''ba'']"
  by code_simp

section \<open>Commit\<close>

text \<open>
  The world \<open>commit\<close> has built when it calls \<open>generateDirTree\<close>: the record of the new
  commit \<open>h\<close> with its empty snapshot directory, the previous HEAD \<open>old\<close> in PREV_COMMIT,
  HEAD set to \<open>h\<close> and the staging file's text \<open>c\<close>, as read in text mode, in
  TRACKED_LIST.
\<close>

definition prepared :: "string \<Rightarrow> string \<Rightarrow> string \<Rightarrow> string \<Rightarrow> world \<Rightarrow> world" where
  "prepared repoPath h old c w =
     put (git_path repoPath [h, TRACKED_LIST]) (File (universal_newlines c))
    (put (git_path repoPath [h, TRACKED_LIST]) (File [])
    (put (git_path repoPath [HEAD]) (File h)
    ((if old \<noteq> [] then put (git_path repoPath [h, PREV_COMMIT]) (File old) else (\<lambda>w. w))
    (put (git_path repoPath [h, PREV_COMMIT]) (File [])
    (put (git_path repoPath [h, TRACKED_LIST]) (File [])
    (put (git_path repoPath [h, COMMIT_DIR]) Dir
    (put (git_path repoPath [h]) Dir w)))))))"

text \<open>What \<open>commit\<close> needs to get as far as the snapshot.\<close>

definition ready :: "string \<Rightarrow> string \<Rightarrow> world \<Rightarrow> bool" where
  "ready repoPath h w \<longleftrightarrow>
     lookup (disk w) (git_path repoPath []) = Some Dir \<and>
     lookup (disk w) (git_path repoPath [h]) = None \<and>
     lookup (disk w) (git_path repoPath [h, COMMIT_DIR]) = None \<and>
     lookup (disk w) (git_path repoPath [h, TRACKED_LIST]) = None \<and>
     lookup (disk w) (git_path repoPath [h, PREV_COMMIT]) = None"

lemma git_path_eq: "git_path r xs = git_path r ys \<longleftrightarrow> xs = ys"
  by (simp add: git_path_def)

lemma git_path_nonempty: "git_path r xs \<noteq> []"
  by (simp add: git_path_def)

lemma git_path_butlast:
  "butlast (git_path r [x]) = git_path r []" "butlast (git_path r [x, y]) = git_path r [x]"
  by (simp_all add: git_path_def butlast_append)

lemma consts_distinct:
  "COMMIT_DIR \<noteq> TRACKED_LIST" "COMMIT_DIR \<noteq> PREV_COMMIT" "TRACKED_LIST \<noteq> PREV_COMMIT"
  "TRACKED_LIST \<noteq> COMMIT_DIR" "PREV_COMMIT \<noteq> COMMIT_DIR" "PREV_COMMIT \<noteq> TRACKED_LIST"
  "HEAD \<noteq> TO_COMMIT" "TO_COMMIT \<noteq> HEAD"
  by (simp_all add: COMMIT_DIR_def TRACKED_LIST_def PREV_COMMIT_def HEAD_def TO_COMMIT_def)

lemma commit_paths:
  assumes "absolute_clean repoPath" "commit_id h"
  shows "resolve (normpath (path_join repoPath [REPO_DIR, h])) = git_path repoPath [h]"
    and "resolve (normpath (path_join (normpath (path_join repoPath [REPO_DIR, h])) [COMMIT_DIR]))
         = git_path repoPath [h, COMMIT_DIR]"
    and "resolve (normpath (path_join (normpath (path_join repoPath [REPO_DIR, h])) [TRACKED_LIST]))
         = git_path repoPath [h, TRACKED_LIST]"
    and "resolve (normpath (path_join (normpath (path_join repoPath [REPO_DIR, h])) [PREV_COMMIT]))
         = git_path repoPath [h, PREV_COMMIT]"
    and "resolve (normpath (path_join repoPath [REPO_DIR, HEAD])) = git_path repoPath [HEAD]"
    and "resolve (normpath (path_join repoPath [REPO_DIR, TO_COMMIT])) = git_path repoPath [TO_COMMIT]"
    and "resolve (normpath (path_join repoPath [REPO_DIR, h, COMMIT_DIR])) = git_path repoPath [h, COMMIT_DIR]"
proof -
  have v: "list_all valid_name [h]"
    using assms(2) by (simp add: commit_id_valid)
  show "resolve (normpath (path_join repoPath [REPO_DIR, h])) = git_path repoPath [h]"
    using resolve_git(1) [OF assms(1) v] .
  have two: "resolve (normpath (path_join (normpath (path_join repoPath [REPO_DIR, h])) [x]))
         = git_path repoPath [h, x]" if "valid_name x" for x
    using resolve_git2 [OF assms(1) v, of "[x]"] that
    by (simp add: relative_clean_name resolve_name git_path_def)
  show "resolve (normpath (path_join (normpath (path_join repoPath [REPO_DIR, h])) [COMMIT_DIR]))
         = git_path repoPath [h, COMMIT_DIR]"
    by (rule two) (rule valid_consts)
  show "resolve (normpath (path_join (normpath (path_join repoPath [REPO_DIR, h])) [TRACKED_LIST]))
         = git_path repoPath [h, TRACKED_LIST]"
    by (rule two) (rule valid_consts)
  show "resolve (normpath (path_join (normpath (path_join repoPath [REPO_DIR, h])) [PREV_COMMIT]))
         = git_path repoPath [h, PREV_COMMIT]"
    by (rule two) (rule valid_consts)
  show "resolve (normpath (path_join repoPath [REPO_DIR, HEAD])) = git_path repoPath [HEAD]"
    using resolve_git(1) [OF assms(1), of "[HEAD]"] valid_consts by simp
  show "resolve (normpath (path_join repoPath [REPO_DIR, TO_COMMIT])) = git_path repoPath [TO_COMMIT]"
    using resolve_git(1) [OF assms(1), of "[TO_COMMIT]"] valid_consts by simp
  show "resolve (normpath (path_join repoPath [REPO_DIR, h, COMMIT_DIR])) = git_path repoPath [h, COMMIT_DIR]"
    using resolve_git(1) [OF assms(1), of "[h, COMMIT_DIR]"] valid_consts v by simp
qed

lemma commit_prepares:
  assumes clean: "absolute_clean repoPath" and id: "commit_id h"
    and ready: "ready repoPath h w"
    and head: "lookup (disk w) (git_path repoPath [HEAD]) = Some (File hc)"
    and tc: "lookup (disk w) (git_path repoPath [TO_COMMIT]) = Some (File c)"
  shows "commit repoPath h w =
     generateDirTree repoPath (splitlines c) (prepared repoPath h (strip (readline hc)) c w)"
proof -
  note p = commit_paths [OF clean id]
  from commit_id_not_const [OF id]
  have ne: "h \<noteq> HEAD" "HEAD \<noteq> h" "h \<noteq> TO_COMMIT" "TO_COMMIT \<noteq> h" "h \<noteq> []"
    by auto
  from ready have r: "lookup (disk w) (git_path repoPath []) = Some Dir"
     "lookup (disk w) (git_path repoPath [h]) = None"
     "lookup (disk w) (git_path repoPath [h, COMMIT_DIR]) = None"
     "lookup (disk w) (git_path repoPath [h, TRACKED_LIST]) = None"
     "lookup (disk w) (git_path repoPath [h, PREV_COMMIT]) = None"
    by (simp_all add: ready_def)
  show ?thesis
    unfolding commit_def Let_def prepared_def
    using r head tc ne
    by (simp add: p io_bind_def path_exists_def assert_def io_return_def io_raise_def mkdir_def
        mkdir_at_def mknod_def parent_is_dir_def lookup_put git_path_eq git_path_nonempty
        git_path_butlast consts_distinct lastCommitHash_def read_file_def write_file_def
        toCommitList_def Let_def)
qed







lemma prepared_lookup:
  assumes "commit_id h"
  shows "lookup (disk (prepared repoPath h old c w)) q =
     (if q = git_path repoPath [h, TRACKED_LIST] then Some (File (universal_newlines c))
      else if q = git_path repoPath [HEAD] then Some (File h)
      else if q = git_path repoPath [h, PREV_COMMIT] then Some (File old)
      else if q = git_path repoPath [h, COMMIT_DIR] then Some Dir
      else if q = git_path repoPath [h] then Some Dir
      else lookup (disk w) q)"
proof -
  from commit_id_not_const [OF assms]
  have ne: "h \<noteq> HEAD" "HEAD \<noteq> h" "h \<noteq> TO_COMMIT" "TO_COMMIT \<noteq> h" "h \<noteq> []"
    by auto
  show ?thesis
    using ne by (simp add: prepared_def lookup_put git_path_nonempty git_path_eq consts_distinct)
qed




lemma read_file_lookup:
  "fst (read_file p w) = Inr c \<longleftrightarrow> lookup (disk w) (resolve p) = Some (File c)"
  by (auto simp: read_file_def split: option.splits entry.splits)

lemma toCommitList_lookup:
  assumes "absolute_clean repoPath" "fst (toCommitList repoPath w) = Inr staged"
  shows "\<exists>c. lookup (disk w) (git_path repoPath [TO_COMMIT]) = Some (File c) \<and> staged = splitlines c"
  using assms(2) unfolding toCommitList_eq [OF assms(1)]
  by (auto split: option.splits entry.splits)

lemma lastCommitHash_lookup:
  assumes "absolute_clean repoPath" "fst (lastCommitHash repoPath w) = Inr old"
  shows "\<exists>hc. lookup (disk w) (git_path repoPath [HEAD]) = Some (File hc) \<and> old = strip (readline hc)"
  using assms(2) unfolding lastCommitHash_eq [OF assms(1)]
  by (auto split: option.splits entry.splits)


text \<open>A repository with one commit \<open>id0\<close> made before anything was staged, and one staged file.\<close>

definition id0 :: string where
  "id0 = ''ffffffffffffffffffffffffffffffff''"




definition outside_example :: world where
  "outside_example =
     snd (add 1 ''/r'' (changePathsRef ''/r'' ''/r'' [''../PREV_COMMIT''])
       \<lparr>disk =
          [([''PREV_COMMIT''], File ''zzz''),
           ([''r''], Dir),
           ([''r'', ''.simplegit''], Dir),
           ([''r'', ''.simplegit'', ''HEAD''], File id0),
           ([''r'', ''.simplegit'', ''TO_COMMIT''], File []),
           ([''r'', ''.simplegit'', id0], Dir),
           ([''r'', ''.simplegit'', id0, ''COMMIT_DIR''], Dir),
           ([''r'', ''.simplegit'', id0, ''TRACKED_LIST''], File []),
           ([''r'', ''.simplegit'', id0, ''PREV_COMMIT''], File [])],
         stdout = []\<rparr>)"

text \<open>
  Claim C3 as it is stated, for every successful \<open>commit\<close>, fails when a staged path leaves
  the repository. In \<open>/r\<close>, with HEAD at \<open>id0\<close>, the command \<open>add ../PREV_COMMIT\<close> stages
  the file \<open>/PREV_COMMIT\<close>, whose content is \<open>zzz\<close>; \<open>commit\<close> then succeeds, and the
  snapshot step copies that file over the PREV_COMMIT of the new commit, which no longer
  holds \<open>id0\<close>.
\<close>

theorem commit_prev_overwritten:
  "fst (toCommitList ''/r'' outside_example) = Inr [''../PREV_COMMIT''] \<and>
   fst (lastCommitHash ''/r'' outside_example) = Inr id0 \<and>
   fst (commit ''/r'' id1 outside_example) = Inr () \<and>
   fst (read_file (normpath (path_join (normpath (path_join ''/r'' [REPO_DIR, id1])) [PREV_COMMIT]))
          (snd (commit ''/r'' id1 outside_example))) = Inr ''zzz''"
  by code_simp



definition clobber_example :: world where
  "clobber_example =
     snd (add 1 ''/a/r'' (changePathsRef ''/a/r'' ''/a/r'' [''../../TO_COMMIT''])
       \<lparr>disk =
          [([''TO_COMMIT''], File (''evil'' @ [NL])),
           ([''a''], Dir),
           ([''a'', ''r''], Dir),
           ([''a'', ''r'', ''.simplegit''], Dir),
           ([''a'', ''r'', ''.simplegit'', ''HEAD''], File []),
           ([''a'', ''r'', ''.simplegit'', ''TO_COMMIT''], File [])],
         stdout = []\<rparr>)"

text \<open>
  Claim C8 as it is stated, for every successful \<open>commit\<close>, fails when a staged path leaves
  the repository. In \<open>/a/r\<close> the command \<open>add ../../TO_COMMIT\<close> stages the file
  \<open>/TO_COMMIT\<close>; \<open>commit\<close> then succeeds, and the snapshot step copies that file over the
  staging file, which afterwards lists \<open>evil\<close>.
\<close>

theorem commit_overwrites_staging_list:
  "fst (toCommitList ''/a/r'' clobber_example) = Inr [''../../TO_COMMIT''] \<and>
   fst (commit ''/a/r'' id1 clobber_example) = Inr () \<and>
   fst (toCommitList ''/a/r'' (snd (commit ''/a/r'' id1 clobber_example))) = Inr [''evil'']"
  by code_simp

lemma splitlines_empty: "splitlines c = [] \<longleftrightarrow> c = []"
proof (cases c)
  case Nil
  then show ?thesis by simp
next
  case (Cons x xs)
  show ?thesis
  proof (cases "line_boundary x")
    case True
    then show ?thesis
      using Cons by (cases xs) simp_all
  next
    case False
    then show ?thesis
      using Cons by (cases "splitlines xs") simp_all
  qed
qed

text \<open>
  A store in which the parent of every entry is a directory: the stores that come from a
  real directory tree.
\<close>

definition parent_closed :: "fs \<Rightarrow> bool" where
  "parent_closed t \<longleftrightarrow> list_all (\<lambda>(p, e). lookup t (butlast p) = Some Dir) t"

lemma lookup_key: "p \<noteq> [] \<Longrightarrow> lookup t p \<noteq> None \<longleftrightarrow> p \<in> fst ` set t"
  by (simp add: lookup_def map_of_eq_None_iff)

lemma parent_closed_below:
  assumes "parent_closed t" "lookup t p = None"
  shows "lookup t (p @ q) = None"
proof (induction q rule: rev_induct)
  case Nil
  then show ?case using assms(2) by simp
next
  case (snoc x q)
  show ?case
  proof (rule ccontr)
    assume "lookup t (p @ q @ [x]) \<noteq> None"
    then obtain e where "(p @ q @ [x], e) \<in> set t"
      using lookup_key [of "p @ q @ [x]" t] by auto
    then have "lookup t (butlast (p @ q @ [x])) = Some Dir"
      using assms(1) by (auto simp: parent_closed_def list_all_iff)
    then show False
      using snoc by (simp add: butlast_append)
  qed
qed

lemma children_set: "set (children t d) = {n. valid_name n \<and> d @ [n] \<in> fst ` set t}"
proof (rule set_eqI)
  fix n
  show "n \<in> set (children t d) \<longleftrightarrow> n \<in> {n. valid_name n \<and> d @ [n] \<in> fst ` set t}"
  proof
    assume "n \<in> set (children t d)"
    then obtain p e where pe: "(p, e) \<in> set t" "p \<noteq> []" "butlast p = d" "valid_name (last p)" "n = last p"
      by (auto simp: children_def)
    then have "p = d @ [n]"
      by (metis append_butlast_last_id)
    then have "d @ [n] \<in> fst ` set t"
      using pe(1) by force
    then show "n \<in> {n. valid_name n \<and> d @ [n] \<in> fst ` set t}"
      using pe(4,5) by simp
  next
    assume "n \<in> {n. valid_name n \<and> d @ [n] \<in> fst ` set t}"
    then obtain e where "valid_name n" "(d @ [n], e) \<in> set t"
      by auto
    then have "(d @ [n], e) \<in> set (filter (\<lambda>(p, e). p \<noteq> [] \<and> butlast p = d \<and> valid_name (last p)) t)"
      by simp
    then have "last (d @ [n]) \<in> set (map (\<lambda>(p, e). last p) (filter (\<lambda>(p, e). p \<noteq> [] \<and> butlast p = d \<and> valid_name (last p)) t))"
      by (metis (mono_tags, lifting) case_prod_conv image_eqI list.set_map)
    then show "n \<in> set (children t d)"
      by (simp add: children_def)
  qed
qed

lemma children_put:
  "set (children (disk (put p e w)) d) =
     set (children (disk w) d) \<union> {n. valid_name n \<and> p = d @ [n]}"
  unfolding children_set put_def by (auto simp: dom_update)

lemma ready_from_fresh:
  assumes "lookup (disk w) (git_path repoPath []) = Some Dir"
    and "lookup (disk w) (git_path repoPath [h]) = None"
    and "parent_closed (disk w)"
  shows "ready repoPath h w"
    and "lookup (disk w) (git_path repoPath (h # xs)) = None"
proof -
  show below: "lookup (disk w) (git_path repoPath (h # xs)) = None" for xs
    using parent_closed_below [OF assms(3,2), of xs] by (simp add: git_path_def)
  show "ready repoPath h w"
    using assms(1,2) below by (simp add: ready_def)
qed

lemma generateDirTree_nothing:
  assumes "absolute_clean repoPath" "commit_id h"
    and "lookup (disk w) (git_path repoPath [HEAD]) = Some (File h)"
  shows "generateDirTree repoPath [] w = (Inr (), w)"
proof -
  have "lastCommitHash repoPath w = (Inr h, w)"
    using assms(3) by (simp add: lastCommitHash_eq [OF assms(1)] commit_id_strip [OF assms(2)])
  then show ?thesis
    using commit_id_not_const [OF assms(2)]
    by (simp add: generateDirTree_def io_bind_def assert_def io_return_def)
qed

lemma prepared_children:
  assumes "commit_id h" "lookup (disk w) (git_path repoPath [h, COMMIT_DIR, n]) = None"
  shows "n \<notin> set (children (disk (prepared repoPath h old c w)) (git_path repoPath [h, COMMIT_DIR]))"
proof -
  have "git_path repoPath [h, COMMIT_DIR] @ [n] \<notin> fst ` set (disk w)"
    using assms(2) lookup_key [of "git_path repoPath [h, COMMIT_DIR, n]" "disk w"]
    by (simp add: git_path_def)
  then have "n \<notin> set (children (disk w) (git_path repoPath [h, COMMIT_DIR]))"
    by (simp add: children_set)
  then show ?thesis
    by (simp add: prepared_def children_put git_path_def)
qed

text \<open>
  Claim C10. In a repository whose staging list is empty, with an identifier that names
  nothing yet, \<open>commit\<close> succeeds: TRACKED_LIST of the new commit is empty, its snapshot
  directory has no entry, PREV_COMMIT holds the previous HEAD and HEAD the new identifier.
\<close>

theorem commit_empty_staging:
  assumes clean: "absolute_clean repoPath" and id: "commit_id newCommitHash"
    and repo: "fst (isdir (normpath (path_join repoPath [REPO_DIR])) w) = Inr True"
    and fresh: "fst (path_exists (normpath (path_join repoPath [REPO_DIR, newCommitHash])) w) = Inr False"
    and closed: "parent_closed (disk w)"
    and old: "fst (lastCommitHash repoPath w) = Inr old"
    and empty: "fst (toCommitList repoPath w) = Inr []"
  shows "\<exists>w'. commit repoPath newCommitHash w = (Inr (), w') \<and>
      fst (read_file (normpath (path_join (normpath (path_join repoPath [REPO_DIR, newCommitHash]))
             [TRACKED_LIST])) w') = Inr [] \<and>
      fst (listdir (normpath (path_join (normpath (path_join repoPath [REPO_DIR, newCommitHash]))
             [COMMIT_DIR])) w') = Inr [] \<and>
      fst (read_file (normpath (path_join (normpath (path_join repoPath [REPO_DIR, newCommitHash]))
             [PREV_COMMIT])) w') = Inr old \<and>
      fst (lastCommitHash repoPath w') = Inr newCommitHash"
proof -
  note p = commit_paths [OF clean id]
  let ?wp = "prepared repoPath newCommitHash old [] w"
  obtain c where tc0: "lookup (disk w) (git_path repoPath [TO_COMMIT]) = Some (File c)"
    and c: "[] = splitlines c"
    using toCommitList_lookup [OF clean empty] by blast
  then have tc: "lookup (disk w) (git_path repoPath [TO_COMMIT]) = Some (File [])"
    using splitlines_empty [of c] by simp
  obtain hc where head: "lookup (disk w) (git_path repoPath [HEAD]) = Some (File hc)"
    and hc: "old = strip (readline hc)"
    using lastCommitHash_lookup [OF clean old] by blast
  have g: "lookup (disk w) (git_path repoPath []) = Some Dir"
    using repo resolve_git(1) [OF clean, of "[]"] by (simp add: isdir_def)
  have n: "lookup (disk w) (git_path repoPath [newCommitHash]) = None"
    using fresh by (simp add: path_exists_def p)
  note r = ready_from_fresh [OF g n closed]
  have "commit repoPath newCommitHash w = generateDirTree repoPath [] ?wp"
    using commit_prepares [OF clean id r(1) head tc] hc by simp
  moreover have "generateDirTree repoPath [] ?wp = (Inr (), ?wp)"
    by (rule generateDirTree_nothing [OF clean id]) (simp add: prepared_lookup [OF id] git_path_eq)
  ultimately have run: "commit repoPath newCommitHash w = (Inr (), ?wp)"
    by simp
  have tr: "fst (read_file (normpath (path_join (normpath (path_join repoPath [REPO_DIR, newCommitHash]))
             [TRACKED_LIST])) ?wp) = Inr []"
    by (simp add: read_file_lookup p prepared_lookup [OF id])
  have "n \<notin> set (children (disk ?wp) (git_path repoPath [newCommitHash, COMMIT_DIR]))" for n
    using prepared_children [OF id r(2)] .
  then have "children (disk ?wp) (git_path repoPath [newCommitHash, COMMIT_DIR]) = []"
    by (cases "children (disk ?wp) (git_path repoPath [newCommitHash, COMMIT_DIR])") force+
  then have ls: "fst (listdir (normpath (path_join (normpath (path_join repoPath [REPO_DIR, newCommitHash]))
             [COMMIT_DIR])) ?wp) = Inr []"
    by (simp add: listdir_def p prepared_lookup [OF id] git_path_eq consts_distinct)
  have pv: "fst (read_file (normpath (path_join (normpath (path_join repoPath [REPO_DIR, newCommitHash]))
             [PREV_COMMIT])) ?wp) = Inr old"
    by (simp add: read_file_lookup p prepared_lookup [OF id] git_path_eq consts_distinct)
  have hd: "fst (lastCommitHash repoPath ?wp) = Inr newCommitHash"
    by (simp add: lastCommitHash_eq [OF clean] commit_id_strip [OF id] prepared_lookup [OF id]
        git_path_eq)
  show ?thesis
    using run tr ls pv hd by blast
qed

text \<open>A repository right after \<open>init\<close>, with one file in the working tree.\<close>

definition empty_example :: world where
  "empty_example = \<lparr>disk =
     [([''r''], Dir),
      ([''r'', ''a.txt''], File ''x''),
      ([''r'', ''.simplegit''], Dir),
      ([''r'', ''.simplegit'', ''HEAD''], File []),
      ([''r'', ''.simplegit'', ''TO_COMMIT''], File [])],
     stdout = []\<rparr>"

theorem commit_empty_staging_witness:
  "fst (commit ''/r'' id1 empty_example) = Inr () \<and>
   fst (read_file (normpath (path_join (normpath (path_join ''/r'' [REPO_DIR, id1])) [TRACKED_LIST]))
      (snd (commit ''/r'' id1 empty_example))) = Inr [] \<and>
   fst (listdir (normpath (path_join (normpath (path_join ''/r'' [REPO_DIR, id1])) [COMMIT_DIR]))
      (snd (commit ''/r'' id1 empty_example))) = Inr [] \<and>
   fst (read_file (normpath (path_join (normpath (path_join ''/r'' [REPO_DIR, id1])) [PREV_COMMIT]))
      (snd (commit ''/r'' id1 empty_example))) = Inr [] \<and>
   fst (lastCommitHash ''/r'' (snd (commit ''/r'' id1 empty_example))) = Inr id1"
proof -
  have h: "absolute_clean ''/r''" "commit_id id1"
    "fst (isdir (normpath (path_join ''/r'' [REPO_DIR])) empty_example) = Inr True"
    "fst (path_exists (normpath (path_join ''/r'' [REPO_DIR, id1])) empty_example) = Inr False"
    "parent_closed (disk empty_example)"
    "fst (lastCommitHash ''/r'' empty_example) = Inr []"
    "fst (toCommitList ''/r'' empty_example) = Inr []"
    by code_simp+
  from commit_empty_staging [OF h] show ?thesis
    by force
qed












section \<open>Status and the working tree\<close>

lemma children_keys: "map fst t' = map fst t \<Longrightarrow> children t' d = children t d"
proof -
  assume k: "map fst t' = map fst t"
  have "map (\<lambda>(p, e). last p) (filter (\<lambda>(p, e). p \<noteq> [] \<and> butlast p = d \<and> valid_name (last p)) s)
      = map last (filter (\<lambda>p. p \<noteq> [] \<and> butlast p = d \<and> valid_name (last p)) (map fst s))" for s :: fs
    by (induction s) auto
  then show ?thesis
    using k by (simp add: children_def)
qed

lemma update_file_keys:
  assumes "lookup t p = Some (File c)"
  shows "map fst (AList.update p (File c') t) = map fst t"
proof -
  have "p \<in> fst ` set t"
    using assms lookup_key [of p t] lookup_file_nonempty [OF assms] by auto
  then show ?thesis
    by (simp add: update_keys)
qed

lemma update_file_dir:
  assumes "lookup t p = Some (File c)"
  shows "lookup (AList.update p (File c') t) q = Some Dir \<longleftrightarrow> lookup t q = Some Dir"
  using assms by (auto simp: lookup_def update_conv' split: if_splits)

lemma walk_files_content:
  "lookup t p = Some (File c) \<Longrightarrow> walk_files (AList.update p (File c') t) root = walk_files t root"
proof (induction t root rule: walk_files.induct)
  case (1 t root)
  note isfile = "1.prems"
  let ?t' = "AList.update p (File c') t"
  have k: "children ?t' x = children t x" for x
    by (rule children_keys) (rule update_file_keys [OF isfile])
  have dq: "lookup ?t' q = Some Dir \<longleftrightarrow> lookup t q = Some Dir" for q
    by (rule update_file_dir [OF isfile])
  show ?case
  proof (cases "lookup t (resolve root) = Some Dir")
    case False
    then show ?thesis
      by (simp add: walk_files.simps [of t root] walk_files.simps [of ?t' root] dq)
  next
    case True
    have rec: "walk_files ?t' (path_join root [d]) = walk_files t (path_join root [d])"
      if "d \<in> set (filter (\<lambda>d. \<not> hidden d)
            (filter (\<lambda>n. lookup t (resolve root @ [n]) = Some Dir) (children t (resolve root))))" for d
      using "1.IH" [OF _ refl refl refl refl refl that isfile] True by simp
    have m: "map (\<lambda>x. walk_files ?t' (path_join root [x]))
            (filter (\<lambda>x. lookup t (resolve root @ [x]) = Some Dir \<and> \<not> hidden x) (children t (resolve root)))
        = map (\<lambda>x. walk_files t (path_join root [x]))
            (filter (\<lambda>x. lookup t (resolve root @ [x]) = Some Dir \<and> \<not> hidden x) (children t (resolve root)))"
      by (rule map_cong) (use rec in auto)
    show ?thesis
      by (simp add: walk_files.simps [of t root] walk_files.simps [of ?t' root] dq k True Let_def)
        (simp only: m)
  qed
qed

text \<open>
  The three states of the claim and the line \<open>status\<close> prints for each: a file is
  committed if its path is in the tracked list of the latest commit, else staged if it is
  in the staging list, else untracked.
\<close>

datatype tracking = Untracked | Staged | Committed

definition classify :: "string list \<Rightarrow> string list \<Rightarrow> string \<Rightarrow> tracking" where
  "classify committed staged f =
     (if f \<in> set committed then Committed else if f \<in> set staged then Staged else Untracked)"

fun report :: "tracking \<Rightarrow> string \<Rightarrow> string list" where
  "report Committed f = []"
| "report Staged f = [f @ '' (added and waiting to commit)'']"
| "report Untracked f = [f @ '' (new file)'']"

lemma wasCommited_tracked:
  assumes "lastCommitHash repoPath w = (Inr comm, w1)"
    and "comm = [] \<and> committed = [] \<or>
         comm \<noteq> [] \<and> fst (read_file (normpath (path_join repoPath [REPO_DIR, comm, TRACKED_LIST])) w) = Inr tc
           \<and> committed = splitlines tc"
  shows "wasCommited repoPath f (w\<lparr>stdout := out\<rparr>) = (Inr (f \<in> set committed), w\<lparr>stdout := out\<rparr>)"
proof -
  have l: "lastCommitHash repoPath (w\<lparr>stdout := out\<rparr>) = (Inr comm, w\<lparr>stdout := out\<rparr>)"
    using assms(1) by (rule lastCommitHash_stdout)
  show ?thesis
  proof (cases "comm = []")
    case True
    then show ?thesis
      using l assms(2) by (simp add: wasCommited_def io_bind_def io_return_def)
  next
    case False
    then have "lookup (disk w) (resolve (normpath (path_join repoPath [REPO_DIR, comm, TRACKED_LIST])))
        = Some (File tc)" and c: "committed = splitlines tc"
      using assms(2) by (simp_all add: read_file_lookup)
    then have "read_file (normpath (path_join repoPath [REPO_DIR, comm, TRACKED_LIST])) (w\<lparr>stdout := out\<rparr>)
        = (Inr tc, w\<lparr>stdout := out\<rparr>)"
      by (simp add: read_file_def)
    then show ?thesis
      using l False c by (simp add: wasCommited_def io_bind_def io_return_def)
  qed
qed

lemma status_prints:
  assumes head: "fst (lastCommitHash repoPath w) = Inr comm"
    and tracked: "comm = [] \<and> committed = [] \<or>
         comm \<noteq> [] \<and> fst (read_file (normpath (path_join repoPath [REPO_DIR, comm, TRACKED_LIST])) w) = Inr tc
           \<and> committed = splitlines tc"
    and staged: "fst (toCommitList repoPath w) = Inr staged"
  shows "status repoPath w =
       (Inr (), w\<lparr>stdout := stdout w @
          concat (map (\<lambda>f. report (classify committed staged f) f)
            (changePathsRef [SEP] repoPath (walk_files (disk w) repoPath)))\<rparr>)"
proof -
  have h1: "lastCommitHash repoPath w = (Inr comm, w)"
    using head lastCommitHash_snd [of repoPath w] by (metis prod.collapse)
  have h2: "toCommitList repoPath w = (Inr staged, w)"
    using staged toCommitList_snd [of repoPath w] by (metis prod.collapse)
  let ?g = "\<lambda>f. report (classify committed staged f) f"
  let ?fs = "changePathsRef [SEP] repoPath (walk_files (disk w) repoPath)"
  let ?body = "\<lambda>f. io_bind (wasCommited repoPath f) (\<lambda>c.
              if \<not> c then
                io_bind (wasAdded repoPath f) (\<lambda>a.
                  if \<not> a then print (f @ '' (new file)'')
                  else print (f @ '' (added and waiting to commit)''))
              else io_return ())"
  have body: "?body f (w\<lparr>stdout := out\<rparr>) = (Inr (), w\<lparr>stdout := out @ ?g f\<rparr>)" for f out
  proof -
    have c: "wasCommited repoPath f (w\<lparr>stdout := out\<rparr>) = (Inr (f \<in> set committed), w\<lparr>stdout := out\<rparr>)"
      using h1 tracked by (rule wasCommited_tracked)
    have a: "wasAdded repoPath f (w\<lparr>stdout := out\<rparr>) = (Inr (f \<in> set staged), w\<lparr>stdout := out\<rparr>)"
      using h2 by (rule toCommitList_wasAdded)
    show ?thesis
      using c a by (simp add: io_bind_def print_def io_return_def classify_def)
  qed
  have "io_for ?fs ?body (w\<lparr>stdout := stdout w\<rparr>) =
      (Inr (), w\<lparr>stdout := stdout w @ concat (map ?g ?fs)\<rparr>)"
    by (rule io_for_prints) (rule body)
  then show ?thesis
    by (simp add: status_def allFiles_def io_bind_def Let_def)
qed

lemma split_normpath:
  assumes "absolute_clean s"
  shows "split_on SEP (normpath s) =
     replicate (initial_slashes s) [] @ (if resolve s = [] then [[]] else resolve s)"
proof -
  let ?cs = "filter (\<lambda>c. c \<noteq> [] \<and> c \<noteq> ''.'') (split_on SEP s)"
  from assms have s: "s \<noteq> []" "take 1 s = [SEP]" and dd: "''..'' \<notin> set (split_on SEP s)"
    by (auto simp: absolute_clean_def)
  have n: "initial_slashes s = 1 \<or> initial_slashes s = 2"
    using s by (simp add: initial_slashes_def)
  have np: "normpath s = replicate (initial_slashes s) SEP @ join_sep ?cs"
    using s n by (auto simp: normpath_def Let_def norm_comps_clean [OF dd])
  have free: "list_all (\<lambda>c. SEP \<notin> set c) ?cs"
    by (auto simp: list_all_iff dest: split_on_sep_free)
  have sp: "split_on SEP (join_sep ?cs) = (if ?cs = [] then [[]] else ?cs)"
    using free by (simp add: split_on_join_sep)
  show ?thesis
    using n sp by (auto simp: np numeral_2_eq_2 resolve_def)
qed

lemma nonempty_comps_normpath:
  assumes "absolute_clean s"
  shows "filter (\<lambda>x. x \<noteq> []) (split_on SEP (normpath s)) = resolve s"
proof -
  have "filter (\<lambda>x. x \<noteq> []) (resolve s) = resolve s"
    unfolding resolve_def filter_filter by (intro filter_cong refl) auto
  then show ?thesis
    by (simp add: split_normpath [OF assms])
qed

lemma join2_root: "take 1 s = [SEP] \<Longrightarrow> join2 [SEP] s = s"
  by (cases s) (auto simp: join2_def)

lemma abspath_clean:
  assumes "absolute_clean s"
  shows "abspath s = normpath s"
  using assms by (simp add: abspath_def absolute_clean_def join2_root)

lemma common_prefix_len_append: "common_prefix_len xs (xs @ ys) = length xs"
  by (induction xs) auto

lemma path_join_names:
  "a \<noteq> [] \<Longrightarrow> last a \<noteq> SEP \<Longrightarrow> list_all valid_name bs \<Longrightarrow>
   path_join a bs = a @ concat (map (\<lambda>b. SEP # b) bs)"
proof (induction bs arbitrary: a)
  case Nil
  then show ?case by (simp add: path_join_def)
next
  case (Cons b bs)
  then have vb: "b \<noteq> []" "SEP \<notin> set b"
    by (simp_all add: valid_name_def)
  then have b: "b \<noteq> []" "hd b \<noteq> SEP" "last b \<noteq> SEP"
    by (metis hd_in_set last_in_set)+
  then have j: "join2 a b = a @ SEP # b"
    using Cons.prems by (simp add: join2_def)
  have "path_join a (b # bs) = path_join (join2 a b) bs"
    by (simp add: path_join_def)
  also have "\<dots> = (a @ SEP # b) @ concat (map (\<lambda>b. SEP # b) bs)"
    unfolding j using Cons.IH [of "a @ SEP # b"] Cons.prems b by simp
  finally show ?case by simp
qed

lemma join_sep_names: "join_sep (c # cs) = c @ concat (map (\<lambda>b. SEP # b) cs)"
  by (induction cs arbitrary: c) auto

lemma relpath_below:
  assumes base: "absolute_clean base" and s: "absolute_clean s"
    and below: "resolve s = resolve base @ cs" and cs: "cs \<noteq> []" "list_all valid_name cs"
  shows "relpath s base = join_sep cs"
proof -
  have 1: "filter (\<lambda>x. x \<noteq> []) (split_on SEP (abspath base)) = resolve base"
    using base by (simp add: abspath_clean nonempty_comps_normpath)
  have 2: "filter (\<lambda>x. x \<noteq> []) (split_on SEP (abspath s)) = resolve base @ cs"
    using s below by (simp add: abspath_clean nonempty_comps_normpath)
  obtain c cs' where c: "cs = c # cs'"
    using cs(1) by (cases cs) auto
  have vc: "c \<noteq> []" "SEP \<notin> set c" "list_all valid_name cs'"
    using cs(2) c by (simp_all add: valid_name_def)
  then have v: "c \<noteq> []" "last c \<noteq> SEP" "list_all valid_name cs'"
    by (metis last_in_set)+
  have "relpath s base = path_join c cs'"
    by (simp add: relpath_def 1 2 Let_def common_prefix_len_append c)
  also have "\<dots> = join_sep cs"
    using path_join_names [OF v] by (simp add: c join_sep_names)
  finally show ?thesis .
qed

text \<open>
  The files of the working tree that \<open>status\<close> is about: \<open>q\<close> is a path below the
  directory \<open>d\<close>, none of its names is hidden, every step but the last is a directory
  and the last is not.
\<close>

fun visible :: "fs \<Rightarrow> path \<Rightarrow> path \<Rightarrow> bool" where
  "visible t d [] = False"
| "visible t d (n # q) =
     (lookup t d = Some Dir \<and> valid_name n \<and> \<not> hidden n \<and>
      (if q = [] then lookup t (d @ [n]) \<noteq> None \<and> lookup t (d @ [n]) \<noteq> Some Dir
       else visible t (d @ [n]) q))"

lemma changePathsRef_set:
  "set (changePathsRef i b xs) = (\<lambda>s. relpath (normpath (path_join i [s])) b) ` set xs"
  by (auto simp: changePathsRef_def Let_def)

lemma found_name:
  assumes base: "absolute_clean base" and root: "absolute_clean root"
    and below: "resolve root = resolve base @ pre" and pre: "list_all valid_name pre"
    and f: "valid_name f"
  shows "relpath (normpath (path_join [SEP] [normpath (path_join root [f])])) base = join_sep (pre @ [f])"
proof -
  let ?s = "normpath (path_join root [f])"
  have rc: "list_all relative_clean [f]"
    using f by (simp add: relative_clean_name)
  have s: "absolute_clean ?s" "resolve ?s = resolve root @ [f]"
    using resolve_norm_join [OF root rc] f by (simp_all add: resolve_name)
  then have "take 1 ?s = [SEP]"
    by (simp add: absolute_clean_def)
  then have j: "path_join [SEP] [?s] = ?s"
    by (simp add: path_join_def join2_root)
  have n: "absolute_clean (normpath ?s)" "resolve (normpath ?s) = resolve ?s"
    using resolve_normpath [OF s(1)] by simp_all
  show ?thesis
    unfolding j
    by (rule relpath_below [OF base n(1)]) (use n(2) s(2) below pre f in simp_all)
qed

lemma children_iff: "n \<in> set (children t d) \<longleftrightarrow> valid_name n \<and> lookup t (d @ [n]) \<noteq> None"
  using lookup_key [of "d @ [n]" t] by (simp add: children_set)

lemma walk_files_visible:
  "absolute_clean base \<Longrightarrow> absolute_clean root \<Longrightarrow> resolve root = resolve base @ pre \<Longrightarrow>
   list_all valid_name pre \<Longrightarrow>
   set (changePathsRef [SEP] base (walk_files t root)) = {join_sep (pre @ q) | q. visible t (resolve root) q}"
proof (induction t root arbitrary: pre rule: walk_files.induct)
  case (1 t root)
  let ?g = "\<lambda>s. relpath (normpath (path_join [SEP] [s])) base"
  let ?d = "resolve root"
  note base = "1.prems"(1) and root = "1.prems"(2) and below = "1.prems"(3) and pre = "1.prems"(4)
  show ?case
  proof (cases "lookup t ?d = Some Dir")
    case False
    have "visible t ?d q = False" for q
      using False by (cases q) auto
    then show ?thesis
      using False by (simp add: walk_files.simps [of t root] changePathsRef_def)
  next
    case True
    let ?files = "filter (\<lambda>n. lookup t (?d @ [n]) \<noteq> Some Dir \<and> \<not> hidden n) (children t ?d)"
    let ?dirs = "filter (\<lambda>n. lookup t (?d @ [n]) = Some Dir \<and> \<not> hidden n) (children t ?d)"
    have w: "walk_files t root = map (\<lambda>file. normpath (path_join root [file])) ?files
        @ concat (map (\<lambda>d. walk_files t (path_join root [d])) ?dirs)"
      using True by (simp add: walk_files.simps [of t root] Let_def)
    have files: "?g ` set (map (\<lambda>file. normpath (path_join root [file])) ?files)
        = {join_sep (pre @ [n]) | n. visible t ?d [n]}"
    proof -
      have g: "?g (normpath (path_join root [n])) = join_sep (pre @ [n])" if "n \<in> set ?files" for n
        using found_name [OF base root below pre] that by (simp add: children_iff)
      have m: "n \<in> set ?files \<longleftrightarrow> visible t ?d [n]" for n
        using True by (auto simp: children_iff)
      have "?g ` set (map (\<lambda>file. normpath (path_join root [file])) ?files)
          = (\<lambda>n. join_sep (pre @ [n])) ` set ?files"
        unfolding set_map image_image by (rule image_cong) (use g in auto)
      also have "\<dots> = {join_sep (pre @ [n]) | n. visible t ?d [n]}"
        using m by blast
      finally show ?thesis .
    qed
    have rec: "?g ` set (walk_files t (path_join root [n]))
        = {join_sep (pre @ n # q) | q. visible t (?d @ [n]) q}" if "n \<in> set ?dirs" for n
    proof -
      have v: "valid_name n"
        using that by (simp add: children_iff)
      have rc: "relative_clean n"
        using v by (rule relative_clean_name)
      have a: "absolute_clean (path_join root [n])"
        using absolute_clean_join2 [OF root rc] by (simp add: path_join_def)
      have r: "resolve (path_join root [n]) = resolve base @ (pre @ [n])"
        using resolve_join2_name [OF v, of root] below by (simp add: path_join_def)
      have p: "list_all valid_name (pre @ [n])"
        using pre v by simp
      have m: "n \<in> set (filter (\<lambda>d. \<not> hidden d)
            (filter (\<lambda>n. lookup t (?d @ [n]) = Some Dir) (children t ?d)))"
        using that by auto
      have "set (changePathsRef [SEP] base (walk_files t (path_join root [n])))
          = {join_sep ((pre @ [n]) @ q) | q. visible t (resolve (path_join root [n])) q}"
        using "1.IH" [OF _ refl refl refl refl refl m base a r p] True by simp
      then show ?thesis
        using r below by (simp add: changePathsRef_set)
    qed
    have dirs: "(\<Union>n\<in>set ?dirs. ?g ` set (walk_files t (path_join root [n])))
        = {join_sep (pre @ n # q) | n q. q \<noteq> [] \<and> visible t ?d (n # q)}"
    proof -
      have e: "(n \<in> set ?dirs \<and> visible t (?d @ [n]) q) = (q \<noteq> [] \<and> visible t ?d (n # q))" for n q
        using True by (cases q) (auto simp: children_iff)
      have "(\<Union>n\<in>set ?dirs. ?g ` set (walk_files t (path_join root [n])))
          = (\<Union>n\<in>set ?dirs. {join_sep (pre @ n # q) | q. visible t (?d @ [n]) q})"
        by (intro SUP_cong refl rec)
      also have "\<dots> = {join_sep (pre @ n # q) | n q. n \<in> set ?dirs \<and> visible t (?d @ [n]) q}"
        by blast
      also have "\<dots> = {join_sep (pre @ n # q) | n q. q \<noteq> [] \<and> visible t ?d (n # q)}"
        by (simp only: e)
      finally show ?thesis .
    qed
    have split: "{join_sep (pre @ q) | q. visible t ?d q}
        = {join_sep (pre @ [n]) | n. visible t ?d [n]}
          \<union> {join_sep (pre @ n # q) | n q. q \<noteq> [] \<and> visible t ?d (n # q)}"
    proof (intro equalityI subsetI)
      fix x
      assume "x \<in> {join_sep (pre @ q) | q. visible t ?d q}"
      then obtain q where q: "x = join_sep (pre @ q)" "visible t ?d q"
        by blast
      then obtain n q' where c: "q = n # q'"
        by (cases q) auto
      show "x \<in> {join_sep (pre @ [n]) | n. visible t ?d [n]}
          \<union> {join_sep (pre @ n # q) | n q. q \<noteq> [] \<and> visible t ?d (n # q)}"
      proof (cases "q' = []")
        case True
        then show ?thesis using q c by blast
      next
        case False
        then show ?thesis using q c by blast
      qed
    next
      fix x
      assume "x \<in> {join_sep (pre @ [n]) | n. visible t ?d [n]}
          \<union> {join_sep (pre @ n # q) | n q. q \<noteq> [] \<and> visible t ?d (n # q)}"
      then show "x \<in> {join_sep (pre @ q) | q. visible t ?d q}"
        by blast
    qed
    have "set (changePathsRef [SEP] base (walk_files t root))
        = ?g ` set (map (\<lambda>file. normpath (path_join root [file])) ?files)
          \<union> (\<Union>n\<in>set ?dirs. ?g ` set (walk_files t (path_join root [n])))"
      unfolding changePathsRef_set w by auto
    then show ?thesis
      unfolding files dirs split .
  qed
qed

lemma read_file_put:
  "p \<noteq> [] \<Longrightarrow> resolve s \<noteq> p \<Longrightarrow> fst (read_file s (put p e w)) = fst (read_file s w)"
  by (simp add: read_file_def lookup_put split: option.splits entry.splits)

lemma write_file_existing:
  "fst (read_file q w) = Inr c0 \<Longrightarrow> write_file q c' w = (Inr (), put (resolve q) (File c') w)"
  by (simp add: read_file_lookup write_file_def)

lemma read_file_pair: "read_file p w = (fst (read_file p w), w)"
  by (simp add: read_file_def split: option.splits entry.splits)

lemma lastCommitHash_read:
  "lastCommitHash repoPath w =
     (case fst (read_file (normpath (path_join repoPath [REPO_DIR, HEAD])) w) of
        Inl e \<Rightarrow> (Inl e, w) | Inr c \<Rightarrow> (Inr (strip (readline c)), w))"
  unfolding lastCommitHash_def io_bind_def io_return_def
  by (subst read_file_pair) (simp split: sum.splits)

lemma toCommitList_read:
  "toCommitList repoPath w =
     (case fst (read_file (normpath (path_join repoPath [REPO_DIR, TO_COMMIT])) w) of
        Inl e \<Rightarrow> (Inl e, w) | Inr c \<Rightarrow> (Inr (splitlines c), w))"
  unfolding toCommitList_def io_bind_def io_return_def
  by (subst read_file_pair) (simp split: sum.splits)

text \<open>
  Claim C6. \<open>status\<close> prints, for the files it finds in their order, the line of the
  state \<open>classify\<close> gives: nothing for a path in the tracked list of the latest commit,
  else the staged line for a path in the staging list, else the new-file line. The files
  it finds are exactly the visible files of the working tree, as paths relative to the
  repository. Overwriting the bytes of any file other than HEAD, TO_COMMIT and the tracked
  list changes nothing in what \<open>status\<close> prints.
\<close>

theorem status_classifies:
  assumes clean: "absolute_clean repoPath"
    and head: "fst (lastCommitHash repoPath w) = Inr comm"
    and tracked: "comm = [] \<and> committed = [] \<or>
         comm \<noteq> [] \<and> fst (read_file (normpath (path_join repoPath [REPO_DIR, comm, TRACKED_LIST])) w) = Inr tc
           \<and> committed = splitlines tc"
    and staged: "fst (toCommitList repoPath w) = Inr staged"
  shows "status repoPath w =
       (Inr (), w\<lparr>stdout := stdout w @
          concat (map (\<lambda>f. report (classify committed staged f) f)
            (changePathsRef [SEP] repoPath (walk_files (disk w) repoPath)))\<rparr>) \<and>
     set (changePathsRef [SEP] repoPath (walk_files (disk w) repoPath))
       = {join_sep q | q. visible (disk w) (resolve repoPath) q} \<and>
     (\<forall>q c0 c'. fst (read_file q w) = Inr c0 \<and>
         resolve q \<noteq> resolve (normpath (path_join repoPath [REPO_DIR, HEAD])) \<and>
         resolve q \<noteq> resolve (normpath (path_join repoPath [REPO_DIR, TO_COMMIT])) \<and>
         resolve q \<noteq> resolve (normpath (path_join repoPath [REPO_DIR, comm, TRACKED_LIST])) \<longrightarrow>
       stdout (snd (status repoPath (snd (write_file q c' w)))) = stdout (snd (status repoPath w)))"
proof (intro conjI allI impI)
  let ?out = "\<lambda>w. concat (map (\<lambda>f. report (classify committed staged f) f)
            (changePathsRef [SEP] repoPath (walk_files (disk w) repoPath)))"
  show 1: "status repoPath w = (Inr (), w\<lparr>stdout := stdout w @ ?out w\<rparr>)"
    using head tracked staged by (rule status_prints)
  show "set (changePathsRef [SEP] repoPath (walk_files (disk w) repoPath))
       = {join_sep q | q. visible (disk w) (resolve repoPath) q}"
    using walk_files_visible [OF clean clean, of "[]" "disk w"] by simp
  fix q c0 c'
  assume a: "fst (read_file q w) = Inr c0 \<and>
         resolve q \<noteq> resolve (normpath (path_join repoPath [REPO_DIR, HEAD])) \<and>
         resolve q \<noteq> resolve (normpath (path_join repoPath [REPO_DIR, TO_COMMIT])) \<and>
         resolve q \<noteq> resolve (normpath (path_join repoPath [REPO_DIR, comm, TRACKED_LIST]))"
  let ?w2 = "put (resolve q) (File c') w"
  have f: "lookup (disk w) (resolve q) = Some (File c0)"
    using a by (simp add: read_file_lookup)
  then have ne: "resolve q \<noteq> []"
    by (rule lookup_file_nonempty)
  have wr: "write_file q c' w = (Inr (), ?w2)"
    using a by (simp add: write_file_existing)
  have "fst (read_file (normpath (path_join repoPath [REPO_DIR, HEAD])) ?w2)
      = fst (read_file (normpath (path_join repoPath [REPO_DIR, HEAD])) w)"
    using a by (intro read_file_put [OF ne]) auto
  then have h2: "fst (lastCommitHash repoPath ?w2) = Inr comm"
    using head by (simp add: lastCommitHash_read split: sum.splits)
  have "fst (read_file (normpath (path_join repoPath [REPO_DIR, TO_COMMIT])) ?w2)
      = fst (read_file (normpath (path_join repoPath [REPO_DIR, TO_COMMIT])) w)"
    using a by (intro read_file_put [OF ne]) auto
  then have s2: "fst (toCommitList repoPath ?w2) = Inr staged"
    using staged by (simp add: toCommitList_read split: sum.splits)
  have t2: "comm = [] \<and> committed = [] \<or>
         comm \<noteq> [] \<and> fst (read_file (normpath (path_join repoPath [REPO_DIR, comm, TRACKED_LIST])) ?w2) = Inr tc
           \<and> committed = splitlines tc"
  proof -
    have "fst (read_file (normpath (path_join repoPath [REPO_DIR, comm, TRACKED_LIST])) ?w2)
      = fst (read_file (normpath (path_join repoPath [REPO_DIR, comm, TRACKED_LIST])) w)"
      using a by (intro read_file_put [OF ne]) auto
    then show ?thesis
      using tracked by auto
  qed
  have "status repoPath ?w2 = (Inr (), ?w2\<lparr>stdout := stdout ?w2 @ ?out ?w2\<rparr>)"
    using h2 t2 s2 by (rule status_prints)
  moreover have "walk_files (disk ?w2) repoPath = walk_files (disk w) repoPath"
    using walk_files_content [OF f] by (simp add: put_def)
  ultimately show "stdout (snd (status repoPath (snd (write_file q c' w)))) = stdout (snd (status repoPath w))"
    using 1 wr by (simp add: stdout_put)
qed

text \<open>
  A repository whose latest commit tracks \<open>a.txt\<close>, changed on disk since; \<open>b.txt\<close> is
  staged, \<open>c.txt\<close> and \<open>sub/d.txt\<close> are new, and \<open>.hidden\<close> is hidden.
\<close>

definition modified_example :: world where
  "modified_example = \<lparr>disk =
     [([''r''], Dir),
      ([''r'', ''a.txt''], File ''y''),
      ([''r'', ''b.txt''], File ''b''),
      ([''r'', ''c.txt''], File ''c''),
      ([''r'', ''.hidden''], File ''h''),
      ([''r'', ''sub''], Dir),
      ([''r'', ''sub'', ''d.txt''], File ''d''),
      ([''r'', ''.simplegit''], Dir),
      ([''r'', ''.simplegit'', ''HEAD''], File id0),
      ([''r'', ''.simplegit'', ''TO_COMMIT''], File (''a.txt'' @ [NL] @ ''b.txt'' @ [NL])),
      ([''r'', ''.simplegit'', id0], Dir),
      ([''r'', ''.simplegit'', id0, ''COMMIT_DIR''], Dir),
      ([''r'', ''.simplegit'', id0, ''COMMIT_DIR'', ''a.txt''], File ''x''),
      ([''r'', ''.simplegit'', id0, ''TRACKED_LIST''], File (''a.txt'' @ [NL])),
      ([''r'', ''.simplegit'', id0, ''PREV_COMMIT''], File [])],
     stdout = []\<rparr>"

theorem status_classifies_witness:
  "stdout (snd (status ''/r'' modified_example)) =
     [''b.txt (added and waiting to commit)'', ''c.txt (new file)'', ''sub/d.txt (new file)''] \<and>
   stdout (snd (status ''/r'' (snd (write_file ''/r/a.txt'' ''z'' modified_example)))) =
     [''b.txt (added and waiting to commit)'', ''c.txt (new file)'', ''sub/d.txt (new file)''] \<and>
   classify [''a.txt''] [''a.txt'', ''b.txt''] ''a.txt'' = Committed"
proof -
  have h: "absolute_clean ''/r''"
    "fst (lastCommitHash ''/r'' modified_example) = Inr id0"
    "id0 = [] \<and> [''a.txt''] = [] \<or>
         id0 \<noteq> [] \<and> fst (read_file (normpath (path_join ''/r'' [REPO_DIR, id0, TRACKED_LIST])) modified_example)
            = Inr (''a.txt'' @ [NL])
           \<and> [''a.txt''] = splitlines (''a.txt'' @ [NL])"
    "fst (toCommitList ''/r'' modified_example) = Inr [''a.txt'', ''b.txt'']"
    by code_simp+
  have fs: "changePathsRef [SEP] ''/r'' (walk_files (disk modified_example) ''/r'')
      = [''a.txt'', ''b.txt'', ''c.txt'', ''sub/d.txt'']"
    by code_simp
  have q: "fst (read_file ''/r/a.txt'' modified_example) = Inr ''y'' \<and>
         resolve ''/r/a.txt'' \<noteq> resolve (normpath (path_join ''/r'' [REPO_DIR, HEAD])) \<and>
         resolve ''/r/a.txt'' \<noteq> resolve (normpath (path_join ''/r'' [REPO_DIR, TO_COMMIT])) \<and>
         resolve ''/r/a.txt'' \<noteq> resolve (normpath (path_join ''/r'' [REPO_DIR, id0, TRACKED_LIST]))"
    by code_simp
  have out: "stdout modified_example = []"
    by (simp add: modified_example_def)
  note t = status_classifies [OF h]
  from t have 1: "stdout (snd (status ''/r'' modified_example)) =
     [''b.txt (added and waiting to commit)'', ''c.txt (new file)'', ''sub/d.txt (new file)'']"
    by (simp add: fs out classify_def)
  from t q have "stdout (snd (status ''/r'' (snd (write_file ''/r/a.txt'' ''z'' modified_example))))
      = stdout (snd (status ''/r'' modified_example))"
    by blast
  then show ?thesis
    using 1 by (simp add: classify_def)
qed

section \<open>What add and commit keep\<close>







































section \<open>The chain of commits\<close>








subsection \<open>\<open>init\<close>\<close>



subsection \<open>\<open>add\<close>\<close>



subsection \<open>\<open>commit\<close>\<close>



subsection \<open>Walking the chain\<close>
















end
